theory Spec2Isabelle
  imports Main "HOL-Library.AList"
begin

text \<open>
  The polling and coalescing core of the super-node service: the in-memory and the Redis
  cache services, the request coalescer, the odds fetch worker, and the two schedulers
  (the exchange polling scheduler and the data prefetch scheduler). Each class is a record
  of its fields, each method a function from the state to its result and the new state;
  what an \<^verbatim>\<open>await\<close> waits for (an answer of the provider, a promise that settles) is an
  argument of the function that runs after it. The definitions come first, section by
  section of the source; the properties follow.
\<close>

section \<open>In-memory cache service\<close>

text \<open>
  Embedding of \<^verbatim>\<open>InMemoryCacheService\<close>. Times are the millisecond readings of
  \<^verbatim>\<open>Date.now()\<close>, passed to every operation that reads the clock; TTLs are seconds.
  Both are JavaScript numbers in the source and integers here.
  A JavaScript \<^verbatim>\<open>Map\<close> keeps insertion order, overwrites in place and is enumerated by
  \<^verbatim>\<open>keys()\<close> in that order: it is an association list with \<open>map_of\<close> for
  \<^verbatim>\<open>get\<close>, \<open>AList.update\<close> for \<^verbatim>\<open>set\<close> and \<open>AList.delete\<close> for \<^verbatim>\<open>delete\<close>.
  A result \<^verbatim>\<open>T | null\<close> is an option, \<open>None\<close> being \<^verbatim>\<open>null\<close>.
\<close>

type_synonym key = string

definition STALE_MULTIPLIER :: int where
  "STALE_MULTIPLIER = 2"

record 'v CacheEntry =
  entry_value :: 'v
  freshUntil :: int
  staleUntil :: int

text \<open>How a promise settles: with a value, or rejected with an error message.\<close>

datatype 'v outcome = Resolved 'v | Rejected string

text \<open>
  The two fields of the class are \<open>store\<close> and \<open>inflight\<close>. Promises are numbered;
  \<open>factories\<close> holds the factory calls that have been started and have not settled, each
  with the \<^verbatim>\<open>key\<close> and \<^verbatim>\<open>ttlSeconds\<close> its continuation closes over, \<open>settled\<close> the
  outcome of every promise that has settled, and \<open>next_promise\<close> the next fresh number.
\<close>

record 'v InMemoryCacheService =
  store :: "(key \<times> 'v CacheEntry) list"
  inflight :: "(key \<times> nat) list"
  factories :: "(nat \<times> key \<times> int) list"
  settled :: "(nat \<times> 'v outcome) list"
  next_promise :: nat

definition mem_empty :: "'v InMemoryCacheService" where
  "mem_empty = \<lparr>store = [], inflight = [], factories = [], settled = [], next_promise = 0\<rparr>"

definition mem_get :: "'v InMemoryCacheService \<Rightarrow> key \<Rightarrow> int \<Rightarrow> 'v option \<times> 'v InMemoryCacheService" where
  "mem_get s k now =
     (case map_of (store s) k of
        None \<Rightarrow> (None, s)
      | Some entry \<Rightarrow>
          if now > staleUntil entry then (None, s\<lparr>store := AList.delete k (store s)\<rparr>)
          else (Some (entry_value entry), s))"

definition mem_set :: "'v InMemoryCacheService \<Rightarrow> key \<Rightarrow> 'v \<Rightarrow> int \<Rightarrow> int \<Rightarrow> 'v InMemoryCacheService" where
  "mem_set s k v ttlSeconds now =
     (let ttlMs = ttlSeconds * 1000
      in s\<lparr>store := AList.update k
              \<lparr>entry_value = v, freshUntil = now + ttlMs, staleUntil = now + ttlMs * STALE_MULTIPLIER\<rparr>
              (store s)\<rparr>)"

definition mem_del :: "'v InMemoryCacheService \<Rightarrow> key \<Rightarrow> 'v InMemoryCacheService" where
  "mem_del s k = s\<lparr>store := AList.delete k (store s), inflight := AList.delete k (inflight s)\<rparr>"

definition mem_exists :: "'v InMemoryCacheService \<Rightarrow> key \<Rightarrow> int \<Rightarrow> bool \<times> 'v InMemoryCacheService" where
  "mem_exists s k now = (case mem_get s k now of (r, s') \<Rightarrow> (r \<noteq> None, s'))"

definition mem_flush :: "'v InMemoryCacheService \<Rightarrow> 'v InMemoryCacheService" where
  "mem_flush s = s\<lparr>store := [], inflight := []\<rparr>"

text \<open>
  \<^verbatim>\<open>keys(pattern)\<close> builds the regular expression \<^verbatim>\<open>^pattern$\<close> after replacing every
  \<^verbatim>\<open>*\<close> by \<^verbatim>\<open>.*\<close> and every \<^verbatim>\<open>?\<close> by \<^verbatim>\<open>.\<close>; every other character of the pattern
  reaches \<^verbatim>\<open>RegExp\<close> as it is. \<open>regex_test\<close> is the test of that expression for a
  pattern that is a glob, \<open>glob_pattern\<close>: one whose characters other than \<^verbatim>\<open>*\<close> and
  \<^verbatim>\<open>?\<close> have no meaning of their own in a regular expression, as in the two patterns of
  the repository, \<^verbatim>\<open>xhot:gmid:*\<close> and \<^verbatim>\<open>hot:match:*\<close>. For any other pattern
  \<open>regex_test\<close> is not the source's test, and every statement below about the keys a
  pattern selects is made for a glob only. The dot of a JavaScript regular expression
  matches any character but a line terminator.
\<close>

definition regex_special :: "char \<Rightarrow> bool" where
  "regex_special c \<longleftrightarrow>
     c \<in> {CHR 0x5C, CHR ''^'', CHR ''$'', CHR ''.'', CHR ''|'', CHR ''?'', CHR ''*'', CHR ''+'',
          CHR ''('', CHR '')'', CHR ''['', CHR '']'', CHR ''{'', CHR ''}''}"

definition glob_pattern :: "string \<Rightarrow> bool" where
  "glob_pattern pattern = list_all (\<lambda>c. c = CHR ''*'' \<or> c = CHR ''?'' \<or> \<not> regex_special c) pattern"

definition dot_matches :: "char \<Rightarrow> bool" where
  "dot_matches c = (c \<noteq> CHR 0x0A \<and> c \<noteq> CHR 0x0D)"

fun regex_test :: "string \<Rightarrow> string \<Rightarrow> bool" where
  "regex_test [] k = (k = [])"
| "regex_test (p # ps) k =
     (if p = CHR ''*'' then
        (regex_test ps k \<or> (case k of [] \<Rightarrow> False | c # cs \<Rightarrow> dot_matches c \<and> regex_test (p # ps) cs))
      else
        (case k of [] \<Rightarrow> False
         | c # cs \<Rightarrow> (if p = CHR ''?'' then dot_matches c else p = c) \<and> regex_test ps cs))"

definition mem_keys :: "'v InMemoryCacheService \<Rightarrow> string \<Rightarrow> key list" where
  "mem_keys s pattern = filter (regex_test pattern) (map fst (store s))"

text \<open>
  \<^verbatim>\<open>coalesce\<close>: an existing in-flight promise is returned as it is; otherwise the factory
  is called, its promise gets the next number and is stored under the key. The function
  returns the promise the caller receives.
\<close>

definition mem_coalesce :: "'v InMemoryCacheService \<Rightarrow> key \<Rightarrow> int \<Rightarrow> nat \<times> 'v InMemoryCacheService" where
  "mem_coalesce s k ttlSeconds =
     (case map_of (inflight s) k of
        Some existing \<Rightarrow> (existing, s)
      | None \<Rightarrow>
          (let promise = next_promise s
           in (promise,
               s\<lparr>inflight := AList.update k promise (inflight s),
                 factories := AList.update promise (k, ttlSeconds) (factories s),
                 next_promise := Suc promise\<rparr>)))"

text \<open>
  The continuation of a started factory call, run when the factory's promise settles at
  time \<open>now\<close>: \<^verbatim>\<open>.then\<close> stores a resolved value with the TTL of the call that started the
  factory, \<^verbatim>\<open>.finally\<close> deletes the in-flight slot of the key on either outcome. The two
  callbacks are taken as one step. Settling a promise that is not a running factory call
  does nothing.
\<close>

definition mem_settle :: "'v InMemoryCacheService \<Rightarrow> nat \<Rightarrow> 'v outcome \<Rightarrow> int \<Rightarrow> 'v InMemoryCacheService" where
  "mem_settle s promise out now =
     (case map_of (factories s) promise of
        None \<Rightarrow> s
      | Some (k, ttlSeconds) \<Rightarrow>
          (let s1 = (case out of Resolved v \<Rightarrow> mem_set s k v ttlSeconds now | Rejected e \<Rightarrow> s)
           in s1\<lparr>inflight := AList.delete k (inflight s1),
                 factories := AList.delete promise (factories s1),
                 settled := AList.update promise out (settled s1)\<rparr>))"

text \<open>
  \<^verbatim>\<open>refreshInBackground\<close> calls \<^verbatim>\<open>coalesce\<close> and attaches an empty \<^verbatim>\<open>catch\<close> handler:
  the promise is dropped, so nothing of its outcome reaches the caller.
\<close>

definition mem_refreshInBackground :: "'v InMemoryCacheService \<Rightarrow> key \<Rightarrow> int \<Rightarrow> 'v InMemoryCacheService" where
  "mem_refreshInBackground s k ttlSeconds = snd (mem_coalesce s k ttlSeconds)"

text \<open>
  What \<^verbatim>\<open>getOrSet\<close> hands to its caller: a value at once, or a promise to wait for.
\<close>

datatype 'v reply = Served 'v | Awaits nat

definition mem_getOrSet :: "'v InMemoryCacheService \<Rightarrow> key \<Rightarrow> int \<Rightarrow> int \<Rightarrow> 'v reply \<times> 'v InMemoryCacheService" where
  "mem_getOrSet s k ttlSeconds now =
     (let entry = map_of (store s) k
      in if entry \<noteq> None \<and> now \<le> freshUntil (the entry) then (Served (entry_value (the entry)), s)
         else if entry \<noteq> None \<and> now \<le> staleUntil (the entry) then
           (Served (entry_value (the entry)), mem_refreshInBackground s k ttlSeconds)
         else (case mem_coalesce s k ttlSeconds of (promise, s') \<Rightarrow> (Awaits promise, s')))"

text \<open>The result a caller ends up with, once the promise it waits for has settled.\<close>

definition reply_result :: "'v InMemoryCacheService \<Rightarrow> 'v reply \<Rightarrow> 'v outcome option" where
  "reply_result s r = (case r of Served v \<Rightarrow> Some (Resolved v) | Awaits p \<Rightarrow> map_of (settled s) p)"

text \<open>
  \<open>miss s k now\<close>: the third case of \<^verbatim>\<open>getOrSet\<close>, when neither of the two tests on the
  entry of the key succeeds at time \<open>now\<close>.
\<close>

definition miss :: "'v InMemoryCacheService \<Rightarrow> key \<Rightarrow> int \<Rightarrow> bool" where
  "miss s k now =
     (case map_of (store s) k of None \<Rightarrow> True | Some e \<Rightarrow> freshUntil e < now \<and> staleUntil e < now)"

text \<open>
  The calls a client can make on the cache, and the settling of a factory promise, as one
  type, so that a history of the cache is a list of calls, each with the clock reading at
  which it runs.
\<close>

datatype 'v cache_call =
    Get key
  | Set key 'v int
  | Del key
  | Exists key
  | Flush
  | Keys string
  | GetOrSet key int
  | Settle nat "'v outcome"

fun mem_call :: "'v InMemoryCacheService \<Rightarrow> 'v cache_call \<Rightarrow> int \<Rightarrow> 'v InMemoryCacheService" where
  "mem_call s (Get k) now = snd (mem_get s k now)"
| "mem_call s (Set k v ttlSeconds) now = mem_set s k v ttlSeconds now"
| "mem_call s (Del k) now = mem_del s k"
| "mem_call s (Exists k) now = snd (mem_exists s k now)"
| "mem_call s Flush now = mem_flush s"
| "mem_call s (Keys pattern) now = s"
| "mem_call s (GetOrSet k ttlSeconds) now = snd (mem_getOrSet s k ttlSeconds now)"
| "mem_call s (Settle promise out) now = mem_settle s promise out now"

fun mem_run :: "'v InMemoryCacheService \<Rightarrow> ('v cache_call \<times> int) list \<Rightarrow> 'v InMemoryCacheService" where
  "mem_run s [] = s"
| "mem_run s ((c, now) # cs) = mem_run (mem_call s c now) cs"

text \<open>
  \<open>writes_key s c k\<close>: in state \<open>s\<close> the call \<open>c\<close> is a set, del or flush of the entry
  of \<open>k\<close>. A factory promise that resolves is a set of the key it was started for.
\<close>

fun writes_key :: "'v InMemoryCacheService \<Rightarrow> 'v cache_call \<Rightarrow> key \<Rightarrow> bool" where
  "writes_key s (Set k' v ttlSeconds) k = (k' = k)"
| "writes_key s (Del k') k = (k' = k)"
| "writes_key s Flush k = True"
| "writes_key s (Settle promise (Resolved v)) k =
     (case map_of (factories s) promise of None \<Rightarrow> False | Some (k', ttlSeconds) \<Rightarrow> k' = k)"
| "writes_key s c k = False"

text \<open>\<open>quiet k s cs\<close>: no call of the history \<open>cs\<close>, run from \<open>s\<close>, writes the key.\<close>

fun quiet :: "key \<Rightarrow> 'v InMemoryCacheService \<Rightarrow> ('v cache_call \<times> int) list \<Rightarrow> bool" where
  "quiet k s [] = True"
| "quiet k s ((c, now) # cs) = (\<not> writes_key s c k \<and> quiet k (mem_call s c now) cs)"

text \<open>\<open>before t cs\<close>: every call of the history runs at a clock reading of at most \<open>t\<close>.\<close>

fun before :: "int \<Rightarrow> ('v cache_call \<times> int) list \<Rightarrow> bool" where
  "before t [] = True"
| "before t ((c, now) # cs) = (now \<le> t \<and> before t cs)"

text \<open>\<open>unread k cs\<close>: no call of the history is a \<^verbatim>\<open>get\<close> or an \<^verbatim>\<open>exists\<close> of the key.\<close>

fun unread :: "key \<Rightarrow> ('v cache_call \<times> int) list \<Rightarrow> bool" where
  "unread k [] = True"
| "unread k ((c, now) # cs) = (c \<noteq> Get k \<and> c \<noteq> Exists k \<and> unread k cs)"

text \<open>The factory executions in progress for a key.\<close>

definition mem_executing :: "'v InMemoryCacheService \<Rightarrow> key \<Rightarrow> nat list" where
  "mem_executing s k = map fst (filter (\<lambda>(p, k', ttl). k' = k) (factories s))"

text \<open>\<open>clears_slots c\<close>: the call is a \<^verbatim>\<open>del\<close> or a \<^verbatim>\<open>flush\<close>, which empty in-flight slots.\<close>

fun clears_slots :: "'v cache_call \<Rightarrow> bool" where
  "clears_slots (Del k) = True"
| "clears_slots Flush = True"
| "clears_slots c = False"

fun keeps_slots :: "('v cache_call \<times> int) list \<Rightarrow> bool" where
  "keeps_slots [] = True"
| "keeps_slots ((c, now) # cs) = (\<not> clears_slots c \<and> keeps_slots cs)"

text \<open>Every factory in progress is the one indexed under its key.\<close>

definition mem_inv :: "'v InMemoryCacheService \<Rightarrow> bool" where
  "mem_inv s \<longleftrightarrow>
     distinct (map fst (factories s)) \<and>
     (\<forall>p k ttl. map_of (factories s) p = Some (k, ttl) \<longrightarrow>
        map_of (inflight s) k = Some p \<and> p < next_promise s)"

section \<open>Exchange polling scheduler: configuration, keys and hot GMID tracking\<close>

record ExchangePollConfig =
  matchList :: int
  topEvents :: int
  banners :: int
  sidebar :: int
  odds :: int
  oddsHotTtl :: int

definition DEFAULT_POLL_CONFIG :: ExchangePollConfig where
  "DEFAULT_POLL_CONFIG =
     \<lparr>matchList = 60000, topEvents = 3600000, banners = 3600000, sidebar = 86400000,
      odds = 1000, oddsHotTtl = 30\<rparr>"

definition MAX_CONCURRENCY :: int where
  "MAX_CONCURRENCY = 5"

definition HOT_GMID_PREFIX :: string where
  "HOT_GMID_PREFIX = ''xhot:gmid:''"

definition POLL_SPORT_IDS :: "int list" where
  "POLL_SPORT_IDS = [4, 1, 2]"

record HotGmidEntry =
  gmid :: string
  sid :: int

text \<open>Decimal rendering of a number in a template string, for the integers sport ids are.\<close>

definition digit_char :: "nat \<Rightarrow> char" where
  "digit_char d = char_of (d + 48)"

fun decimal_digits :: "nat \<Rightarrow> string" where
  "decimal_digits n =
     (if 10 \<le> n then decimal_digits (n div 10) @ [digit_char (n mod 10)] else [digit_char n])"

declare decimal_digits.simps [simp del]

definition number_text :: "int \<Rightarrow> string" where
  "number_text i = (if 0 \<le> i then decimal_digits (nat i) else CHR ''-'' # decimal_digits (nat (- i)))"

text \<open>\<^verbatim>\<open>EXCHANGE_CACHE_KEYS\<close>.\<close>

definition key_allSports :: key where "key_allSports = ''exchange:sports''"
definition key_matchList :: "int \<Rightarrow> key" where "key_matchList s = ''exchange:matches:'' @ number_text s"
definition key_matchOdds :: "string \<Rightarrow> key" where "key_matchOdds g = ''exchange:odds:'' @ g"
definition key_topEvents :: key where "key_topEvents = ''exchange:top-events''"
definition key_banners :: key where "key_banners = ''exchange:banners''"
definition key_sidebar :: key where "key_sidebar = ''exchange:sidebar''"
definition hotGmid :: "string \<Rightarrow> key" where "hotGmid g = HOT_GMID_PREFIX @ g"
definition hotGmidPattern :: string where "hotGmidPattern = HOT_GMID_PREFIX @ ''*''"

text \<open>\<^verbatim>\<open>EXCHANGE_CACHE_TTL\<close>, in seconds.\<close>

definition TTL_SPORTS :: int where "TTL_SPORTS = 86400"
definition TTL_MATCH_LIST :: int where "TTL_MATCH_LIST = 120"
definition TTL_MATCH_ODDS :: int where "TTL_MATCH_ODDS = 2"
definition TTL_TOP_EVENTS :: int where "TTL_TOP_EVENTS = 7200"
definition TTL_BANNERS :: int where "TTL_BANNERS = 7200"
definition TTL_SIDEBAR :: int where "TTL_SIDEBAR = 172800"

text \<open>
  The values the schedulers put in the cache. The payloads of the provider are opaque:
  \<open>'a\<close> stands for one item of provider data. \<open>HotRecord gmid sid ts\<close> is the object
  \<^verbatim>\<open>{gmid, sid, ts}\<close> of \<^verbatim>\<open>markGmidHot\<close>, the only cached value with a \<^verbatim>\<open>sid\<close> property;
  \<open>Timestamp\<close> is the bare number that \<^verbatim>\<open>markMatchHot\<close> stores.
\<close>

datatype 'a cached =
    HotRecord string int int
  | Timestamp int
  | Sports "'a list"
  | MatchList 'a
  | MarketOdds "'a list"
  | TopEvents "'a list"
  | Banners 'a
  | SidebarTree 'a
  | LiveMatches "'a list"

text \<open>
  \<^verbatim>\<open>key.replace(prefix, "")\<close> with a string pattern replaces the first occurrence only.
\<close>

fun replace_first :: "string \<Rightarrow> string \<Rightarrow> string \<Rightarrow> string" where
  "replace_first pat rep [] = (if pat = [] then rep else [])"
| "replace_first pat rep (c # cs) =
     (if take (length pat) (c # cs) = pat then rep @ drop (length pat) (c # cs)
      else c # replace_first pat rep cs)"

definition markGmidHot ::
  "'a cached InMemoryCacheService \<Rightarrow> ExchangePollConfig \<Rightarrow> string \<Rightarrow> int \<Rightarrow> int \<Rightarrow> 'a cached InMemoryCacheService" where
  "markGmidHot c cfg g s now = mem_set c (hotGmid g) (HotRecord g s now) (oddsHotTtl cfg) now"

text \<open>
  The body of the loop of \<^verbatim>\<open>getHotGmids\<close>: the entry pushed for a key and the value
  \<^verbatim>\<open>cache.get\<close> returned for it. Anything but an object with a \<^verbatim>\<open>sid\<close> property,
  \<^verbatim>\<open>null\<close> included, takes the fallback branch.
\<close>

definition hot_entry :: "key \<Rightarrow> 'a cached option \<Rightarrow> HotGmidEntry" where
  "hot_entry k raw =
     (let g = replace_first HOT_GMID_PREFIX [] k
      in case raw of
           Some (HotRecord g' s ts) \<Rightarrow> \<lparr>gmid = g, sid = s\<rparr>
         | _ \<Rightarrow> \<lparr>gmid = g, sid = 4\<rparr>)"

fun hot_entries ::
  "'a cached InMemoryCacheService \<Rightarrow> key list \<Rightarrow> int \<Rightarrow> HotGmidEntry list \<times> 'a cached InMemoryCacheService" where
  "hot_entries c [] now = ([], c)"
| "hot_entries c (k # ks) now =
     (case mem_get c k now of
        (raw, c1) \<Rightarrow> (case hot_entries c1 ks now of (es, c2) \<Rightarrow> (hot_entry k raw # es, c2)))"

text \<open>
  \<^verbatim>\<open>getHotGmids\<close>, with one clock reading for the whole enumeration (with the in-memory
  cache no await of the loop waits for anything).
\<close>

definition getHotGmids ::
  "'a cached InMemoryCacheService \<Rightarrow> int \<Rightarrow> HotGmidEntry list \<times> 'a cached InMemoryCacheService" where
  "getHotGmids c now = hot_entries c (mem_keys c hotGmidPattern) now"

text \<open>The prefetch scheduler's hot matches: \<^verbatim>\<open>markMatchHot\<close> and \<^verbatim>\<open>getHotMatchIds\<close>.\<close>

definition HOT_MATCH_TTL :: int where "HOT_MATCH_TTL = 30"
definition HOT_KEY_PREFIX :: string where "HOT_KEY_PREFIX = ''hot:match:''"
definition hotMatch :: "string \<Rightarrow> key" where "hotMatch m = HOT_KEY_PREFIX @ m"
definition hotMatchPattern :: string where "hotMatchPattern = HOT_KEY_PREFIX @ ''*''"

definition markMatchHot :: "'a cached InMemoryCacheService \<Rightarrow> string \<Rightarrow> int \<Rightarrow> 'a cached InMemoryCacheService" where
  "markMatchHot c m now = mem_set c (hotMatch m) (Timestamp now) HOT_MATCH_TTL now"

definition getHotMatchIds :: "'a cached InMemoryCacheService \<Rightarrow> string list" where
  "getHotMatchIds c = map (replace_first HOT_KEY_PREFIX []) (mem_keys c hotMatchPattern)"

section \<open>Request coalescer\<close>

text \<open>
  Embedding of \<^verbatim>\<open>RequestCoalescer\<close>. Its one field is the map \<open>inFlight\<close> from keys to
  promises. As for the cache, promises are numbered: \<open>fetchers\<close> holds the calls of a
  \<^verbatim>\<open>fetcher\<close> that have started and not settled, each with the key its \<^verbatim>\<open>finally\<close>
  callback closes over, \<open>outcomes\<close> how each settled promise settled.
\<close>

record 'r RequestCoalescer =
  inFlight :: "(key \<times> nat) list"
  fetchers :: "(nat \<times> key) list"
  outcomes :: "(nat \<times> 'r outcome) list"
  next_fetch :: nat

definition co_empty :: "'r RequestCoalescer" where
  "co_empty = \<lparr>inFlight = [], fetchers = [], outcomes = [], next_fetch = 0\<rparr>"

text \<open>\<^verbatim>\<open>coalesce(key, fetcher)\<close> returns the promise handed to the caller.\<close>

definition coalesce :: "'r RequestCoalescer \<Rightarrow> key \<Rightarrow> nat \<times> 'r RequestCoalescer" where
  "coalesce s k =
     (case map_of (inFlight s) k of
        Some existing \<Rightarrow> (existing, s)
      | None \<Rightarrow>
          (let promise = next_fetch s
           in (promise,
               s\<lparr>inFlight := AList.update k promise (inFlight s),
                 fetchers := AList.update promise k (fetchers s),
                 next_fetch := Suc promise\<rparr>)))"

text \<open>
  The \<^verbatim>\<open>finally\<close> callback, run when the fetcher's promise settles on either outcome:
  it deletes the slot of the key, and the promise handed out settles the same way.
\<close>

definition co_settle :: "'r RequestCoalescer \<Rightarrow> nat \<Rightarrow> 'r outcome \<Rightarrow> 'r RequestCoalescer" where
  "co_settle s promise out =
     (case map_of (fetchers s) promise of
        None \<Rightarrow> s
      | Some k \<Rightarrow>
          s\<lparr>inFlight := AList.delete k (inFlight s),
            fetchers := AList.delete promise (fetchers s),
            outcomes := AList.update promise out (outcomes s)\<rparr>)"

definition activeCount_of :: "'r RequestCoalescer \<Rightarrow> nat" where
  "activeCount_of s = length (inFlight s)"

datatype 'r co_event = Coalesce key | Settled nat "'r outcome"

fun co_step :: "'r RequestCoalescer \<Rightarrow> 'r co_event \<Rightarrow> 'r RequestCoalescer" where
  "co_step s (Coalesce k) = snd (coalesce s k)"
| "co_step s (Settled promise out) = co_settle s promise out"

definition co_run :: "'r co_event list \<Rightarrow> 'r RequestCoalescer" where
  "co_run es = foldl co_step co_empty es"

text \<open>The fetcher executions in progress for a key.\<close>

definition executing :: "'r RequestCoalescer \<Rightarrow> key \<Rightarrow> nat list" where
  "executing s k = map fst (filter (\<lambda>(p, k'). k' = k) (fetchers s))"

text \<open>\<open>settles p e\<close>: the event is the settling of promise \<open>p\<close>.\<close>

fun settles :: "nat \<Rightarrow> 'r co_event \<Rightarrow> bool" where
  "settles p (Settled p' out) = (p' = p)"
| "settles p (Coalesce k) = False"

text \<open>
  The consistency of the coalescer's state: every fetcher in progress is the one indexed
  under its key, and every slot holds a fetcher in progress.
\<close>

definition co_inv :: "'r RequestCoalescer \<Rightarrow> bool" where
  "co_inv s \<longleftrightarrow>
     distinct (map fst (fetchers s)) \<and> distinct (map fst (inFlight s)) \<and>
     (\<forall>p k. map_of (fetchers s) p = Some k \<longrightarrow> map_of (inFlight s) k = Some p \<and> p < next_fetch s) \<and>
     (\<forall>k p. map_of (inFlight s) k = Some p \<longrightarrow> map_of (fetchers s) p = Some k)"

section \<open>Odds fetch worker\<close>

text \<open>
  Embedding of \<^verbatim>\<open>OddsFetchWorker\<close>, the same class in both schedulers but for the type of
  a queue entry (\<open>'e\<close>: a \<^verbatim>\<open>HotGmidEntry\<close> in the exchange scheduler, a match id in the
  prefetch scheduler). Its fields are \<open>activeCount\<close>, \<open>queue\<close> and \<open>processing\<close>;
  \<open>fetching\<close> holds the calls of \<^verbatim>\<open>fetchOdds\<close> the pool has started and whose promise has
  not settled, in the order they were started.
\<close>

record 'e OddsFetchWorker =
  activeCount :: int
  queue :: "'e list"
  processing :: bool
  fetching :: "'e list"

definition worker_init :: "'e OddsFetchWorker" where
  "worker_init = \<lparr>activeCount = 0, queue = [], processing = False, fetching = []\<rparr>"

text \<open>The \<^verbatim>\<open>while\<close> loop of \<^verbatim>\<open>drain\<close>: shift an entry, count it, start its fetch.\<close>

function drain_loop :: "'e OddsFetchWorker \<Rightarrow> 'e OddsFetchWorker" where
  "drain_loop w =
     (if queue w \<noteq> [] \<and> activeCount w < MAX_CONCURRENCY then
        drain_loop (w\<lparr>queue := tl (queue w), activeCount := activeCount w + 1,
                      fetching := fetching w @ [hd (queue w)]\<rparr>)
      else w)"
  by pat_completeness auto
termination
  by (relation "measure (\<lambda>w. length (queue w))") auto

declare drain_loop.simps [simp del]

text \<open>
  \<^verbatim>\<open>drain\<close> returns, with the new state, whether it emitted \<^verbatim>\<open>TICK_COMPLETE\<close>.
\<close>

definition drain :: "'e OddsFetchWorker \<Rightarrow> bool \<times> 'e OddsFetchWorker" where
  "drain w =
     (if processing w \<and> queue w = [] \<and> activeCount w = 0 then (True, w\<lparr>processing := False\<rparr>)
      else
        (let w1 = drain_loop (w\<lparr>processing := True\<rparr>)
         in if queue w1 = [] \<and> activeCount w1 = 0 then (True, w1\<lparr>processing := False\<rparr>)
            else (False, w1)))"

definition enqueue :: "'e OddsFetchWorker \<Rightarrow> 'e list \<Rightarrow> bool \<times> 'e OddsFetchWorker" where
  "enqueue w entries = drain (w\<lparr>queue := queue w @ entries\<rparr>)"

text \<open>
  The \<^verbatim>\<open>finally\<close> callback of a started fetch, run when the fetch at position \<open>i\<close> of
  \<open>fetching\<close> settles, whatever its outcome: the count goes down and \<^verbatim>\<open>drain\<close> runs again.
  There is no such callback for a fetch that is not in progress.
\<close>

definition fetch_settled :: "'e OddsFetchWorker \<Rightarrow> nat \<Rightarrow> bool \<times> 'e OddsFetchWorker" where
  "fetch_settled w i =
     (if i < length (fetching w) then
        drain (w\<lparr>fetching := take i (fetching w) @ drop (Suc i) (fetching w),
                 activeCount := activeCount w - 1\<rparr>)
      else (False, w))"

datatype 'e worker_event = Enqueue "'e list" | FetchSettled nat

fun worker_step :: "'e OddsFetchWorker \<Rightarrow> 'e worker_event \<Rightarrow> 'e OddsFetchWorker" where
  "worker_step w (Enqueue entries) = snd (enqueue w entries)"
| "worker_step w (FetchSettled i) = snd (fetch_settled w i)"

definition worker_run :: "'e worker_event list \<Rightarrow> 'e OddsFetchWorker" where
  "worker_run evs = foldl worker_step worker_init evs"

text \<open>
  The state of the pool is consistent when \<open>activeCount\<close> counts the fetches in progress
  and is within the bound.
\<close>

definition worker_inv :: "'e OddsFetchWorker \<Rightarrow> bool" where
  "worker_inv w \<longleftrightarrow> activeCount w = int (length (fetching w)) \<and> activeCount w \<le> MAX_CONCURRENCY"

section \<open>Exchange polling scheduler: what the handlers write to the cache\<close>

text \<open>
  An answer of the provider is \<open>Inr\<close> of what the call resolves to, with \<open>None\<close> for
  \<^verbatim>\<open>null\<close>, or \<open>Inl\<close> of the error it rejects with. A handler below is the part of the
  source method that runs once the provider has answered, on the cache it writes to; \<open>now\<close>
  is the clock reading at that moment.
\<close>

record 'a provider_responses =
  sports_response :: "string + 'a list"
  matchList_response :: "int \<Rightarrow> string + 'a option"
  topEvents_response :: "string + 'a list"
  banners_response :: "string + 'a option"
  sidebar_response :: "string + 'a option"

text \<open>The test \<^verbatim>\<open>data && data.length > 0\<close> on the answer of \<^verbatim>\<open>getMatchOdds\<close>.\<close>

definition odds_present :: "'a list option \<Rightarrow> bool" where
  "odds_present data = (case data of None \<Rightarrow> False | Some markets \<Rightarrow> length markets > 0)"

text \<open>
  The fetcher that \<^verbatim>\<open>getCoalescedOdds\<close> passes to the coalescer: it returns the data as
  they came.
\<close>

definition getCoalescedOdds_fetcher ::
  "'a cached InMemoryCacheService \<Rightarrow> string \<Rightarrow> 'a list option \<Rightarrow> int \<Rightarrow>
   'a list option \<times> 'a cached InMemoryCacheService" where
  "getCoalescedOdds_fetcher c g data now =
     (data, if odds_present data then mem_set c (key_matchOdds g) (MarketOdds (the data)) TTL_MATCH_ODDS now
            else c)"

text \<open>
  \<^verbatim>\<open>fetchOdds\<close> of the worker, from the moment the coalesced promise settles with \<open>r\<close>.
\<close>

definition fetchOdds ::
  "'a cached InMemoryCacheService \<Rightarrow> string \<Rightarrow> string + 'a list option \<Rightarrow> int \<Rightarrow>
   bool \<times> 'a cached InMemoryCacheService" where
  "fetchOdds c g r now =
     (case r of
        Inl err \<Rightarrow> (False, c)
      | Inr data \<Rightarrow>
          if odds_present data then
            (True, mem_set c (key_matchOdds g) (MarketOdds (the data)) TTL_MATCH_ODDS now)
          else (False, c))"

text \<open>One round of the loop of \<^verbatim>\<open>pollMatchLists\<close>, and the loop over the sport ids.\<close>

definition pollMatchList ::
  "'a cached InMemoryCacheService \<Rightarrow> int \<Rightarrow> string + 'a option \<Rightarrow> int \<Rightarrow> 'a cached InMemoryCacheService" where
  "pollMatchList c s r now =
     (case r of
        Inl err \<Rightarrow> c
      | Inr None \<Rightarrow> c
      | Inr (Some data) \<Rightarrow> mem_set c (key_matchList s) (MatchList data) TTL_MATCH_LIST now)"

fun pollMatchLists_loop ::
  "'a cached InMemoryCacheService \<Rightarrow> int list \<Rightarrow> (int \<Rightarrow> string + 'a option) \<Rightarrow> int \<Rightarrow>
   'a cached InMemoryCacheService" where
  "pollMatchLists_loop c [] resp now = c"
| "pollMatchLists_loop c (s # ss) resp now = pollMatchLists_loop (pollMatchList c s (resp s) now) ss resp now"

definition pollMatchLists ::
  "'a cached InMemoryCacheService \<Rightarrow> (int \<Rightarrow> string + 'a option) \<Rightarrow> int \<Rightarrow> 'a cached InMemoryCacheService" where
  "pollMatchLists c resp now = pollMatchLists_loop c POLL_SPORT_IDS resp now"

definition pollTopEvents ::
  "'a cached InMemoryCacheService \<Rightarrow> string + 'a list \<Rightarrow> int \<Rightarrow> 'a cached InMemoryCacheService" where
  "pollTopEvents c r now =
     (case r of
        Inl err \<Rightarrow> c
      | Inr events \<Rightarrow>
          if length events > 0 then mem_set c key_topEvents (TopEvents events) TTL_TOP_EVENTS now else c)"

definition pollBanners ::
  "'a cached InMemoryCacheService \<Rightarrow> string + 'a option \<Rightarrow> int \<Rightarrow> 'a cached InMemoryCacheService" where
  "pollBanners c r now =
     (case r of
        Inl err \<Rightarrow> c
      | Inr None \<Rightarrow> c
      | Inr (Some b) \<Rightarrow> mem_set c key_banners (Banners b) TTL_BANNERS now)"

definition pollSidebar ::
  "'a cached InMemoryCacheService \<Rightarrow> string + 'a option \<Rightarrow> int \<Rightarrow> 'a cached InMemoryCacheService" where
  "pollSidebar c r now =
     (case r of
        Inl err \<Rightarrow> c
      | Inr None \<Rightarrow> c
      | Inr (Some tree) \<Rightarrow> mem_set c key_sidebar (SidebarTree tree) TTL_SIDEBAR now)"

text \<open>
  \<^verbatim>\<open>bootstrapOnce\<close>: the sports, then the match lists, then top events, banners and
  sidebar, which the source starts together and which write three different keys; they are
  taken in the order they are started.
\<close>

definition bootstrapOnce ::
  "'a cached InMemoryCacheService \<Rightarrow> 'a provider_responses \<Rightarrow> int \<Rightarrow> 'a cached InMemoryCacheService" where
  "bootstrapOnce c resp now =
     (let c1 = (case sports_response resp of
                  Inl err \<Rightarrow> c
                | Inr sports \<Rightarrow>
                    if length sports > 0 then mem_set c key_allSports (Sports sports) TTL_SPORTS now else c);
          c2 = pollMatchLists c1 (matchList_response resp) now;
          c3 = pollTopEvents c2 (topEvents_response resp) now;
          c4 = pollBanners c3 (banners_response resp) now
      in pollSidebar c4 (sidebar_response resp) now)"

section \<open>Schedulers: lifecycle\<close>

text \<open>
  The timers of the JavaScript runtime: \<^verbatim>\<open>setInterval\<close> registers a callback with its
  period and returns a fresh handle, \<^verbatim>\<open>clearInterval\<close> removes the registration of a
  handle and does nothing for a handle that is not registered. A callback is named by the
  tier whose poll method it calls.
\<close>

datatype tier = OddsTier | MatchListTier | TopEventsTier | BannersTier | SidebarTier

record timer_table =
  intervals :: "(nat \<times> tier \<times> int) list"
  next_handle :: nat

definition no_timers :: timer_table where
  "no_timers = \<lparr>intervals = [], next_handle = 0\<rparr>"

definition setInterval :: "timer_table \<Rightarrow> tier \<Rightarrow> int \<Rightarrow> nat \<times> timer_table" where
  "setInterval t callback period =
     (next_handle t,
      t\<lparr>intervals := intervals t @ [(next_handle t, callback, period)], next_handle := Suc (next_handle t)\<rparr>)"

text \<open>The statement \<^verbatim>\<open>if (this.timer) clearInterval(this.timer)\<close> on a timer field.\<close>

definition clearInterval :: "timer_table \<Rightarrow> nat option \<Rightarrow> timer_table" where
  "clearInterval t field =
     (case field of None \<Rightarrow> t | Some h \<Rightarrow> t\<lparr>intervals := filter (\<lambda>(h', cb, p). h' \<noteq> h) (intervals t)\<rparr>)"

text \<open>
  \<^verbatim>\<open>ExchangePollingScheduler\<close>. After the fields of the class come \<open>listeners\<close>, whether
  the listeners registered on the worker by the two constructors are still attached
  (\<^verbatim>\<open>removeAllListeners\<close> detaches them all), the timers of the runtime, and \<open>awaiting_hot\<close>,
  the number of calls of \<^verbatim>\<open>pollHotGmidOdds\<close> suspended at \<^verbatim>\<open>await this.getHotGmids()\<close>.
\<close>

record 'a ExchangePollingScheduler =
  cache :: "'a cached InMemoryCacheService"
  config :: ExchangePollConfig
  worker :: "HotGmidEntry OddsFetchWorker"
  coalescer :: "'a list option RequestCoalescer"
  started :: bool
  oddsPollingActive :: bool
  oddsTimer :: "nat option"
  matchListTimer :: "nat option"
  topEventsTimer :: "nat option"
  bannersTimer :: "nat option"
  sidebarTimer :: "nat option"
  listeners :: bool
  timers :: timer_table
  awaiting_hot :: nat

definition new_scheduler :: "'a cached InMemoryCacheService \<Rightarrow> ExchangePollConfig \<Rightarrow> 'a ExchangePollingScheduler" where
  "new_scheduler c cfg =
     \<lparr>cache = c, config = cfg, worker = worker_init, coalescer = co_empty, started = False,
      oddsPollingActive = False, oddsTimer = None, matchListTimer = None, topEventsTimer = None,
      bannersTimer = None, sidebarTimer = None, listeners = True, timers = no_timers,
      awaiting_hot = 0\<rparr>"

text \<open>
  \<^verbatim>\<open>start\<close>, run to its end with the answers the provider gives to the bootstrap.
\<close>

definition start ::
  "'a ExchangePollingScheduler \<Rightarrow> 'a provider_responses \<Rightarrow> int \<Rightarrow> 'a ExchangePollingScheduler" where
  "start s resp now =
     (if started s then s
      else
        (let s1 = s\<lparr>started := True\<rparr>;
             s2 = s1\<lparr>cache := bootstrapOnce (cache s1) resp now\<rparr>;
             (h1, t1) = setInterval (timers s2) OddsTier (odds (config s2));
             (h2, t2) = setInterval t1 MatchListTier (matchList (config s2));
             (h3, t3) = setInterval t2 TopEventsTier (topEvents (config s2));
             (h4, t4) = setInterval t3 BannersTier (banners (config s2));
             (h5, t5) = setInterval t4 SidebarTier (sidebar (config s2))
         in s2\<lparr>oddsTimer := Some h1, matchListTimer := Some h2, topEventsTimer := Some h3,
               bannersTimer := Some h4, sidebarTimer := Some h5, timers := t5\<rparr>))"

definition stop :: "'a ExchangePollingScheduler \<Rightarrow> 'a ExchangePollingScheduler" where
  "stop s =
     (if \<not> started s then s
      else
        (let t1 = clearInterval (timers s) (oddsTimer s);
             t2 = clearInterval t1 (matchListTimer s);
             t3 = clearInterval t2 (topEventsTimer s);
             t4 = clearInterval t3 (bannersTimer s);
             t5 = clearInterval t4 (sidebarTimer s)
         in s\<lparr>timers := t5, listeners := False, started := False\<rparr>))"

text \<open>
  \<^verbatim>\<open>DataPrefetchScheduler\<close>. Its bootstrap stores, for each sport, the matches of all the
  providers that answered; \<open>live\<close> gives the answers of the providers for a sport, in the
  order of the provider map.
\<close>

definition PREFETCH_SPORTS :: "string list" where
  "PREFETCH_SPORTS = [''cricket'', ''soccer'', ''tennis'']"

definition POLL_INTERVAL_LIVE_ODDS :: int where "POLL_INTERVAL_LIVE_ODDS = 1000"
definition POLL_INTERVAL_MATCH_LIST :: int where "POLL_INTERVAL_MATCH_LIST = 50000"

definition key_liveMatches :: "string \<Rightarrow> key" where
  "key_liveMatches sport = ''live_matches:'' @ sport"

text \<open>\<^verbatim>\<open>Math.ceil((POLL_INTERVAL.MATCH_LIST / 1000) * 2)\<close>.\<close>

definition prefetch_cacheTtl :: int where
  "prefetch_cacheTtl = - ((- (POLL_INTERVAL_MATCH_LIST * 2)) div 1000)"

definition prefetchMatchList ::
  "'a cached InMemoryCacheService \<Rightarrow> string \<Rightarrow> (string + 'a list) list \<Rightarrow> int \<Rightarrow> 'a cached InMemoryCacheService" where
  "prefetchMatchList c sport answers now =
     mem_set c (key_liveMatches sport)
       (LiveMatches (concat (map (\<lambda>r. case r of Inl err \<Rightarrow> [] | Inr matches \<Rightarrow> matches) answers)))
       prefetch_cacheTtl now"

fun prefetchAllMatchLists ::
  "'a cached InMemoryCacheService \<Rightarrow> string list \<Rightarrow> (string \<Rightarrow> (string + 'a list) list) \<Rightarrow> int \<Rightarrow>
   'a cached InMemoryCacheService" where
  "prefetchAllMatchLists c [] live now = c"
| "prefetchAllMatchLists c (sport # sports) live now =
     prefetchAllMatchLists (prefetchMatchList c sport (live sport) now) sports live now"

record 'a DataPrefetchScheduler =
  pf_cache :: "'a cached InMemoryCacheService"
  pf_worker :: "string OddsFetchWorker"
  pf_started :: bool
  pf_oddsTimer :: "nat option"
  pf_oddsPollingActive :: bool
  pf_listeners :: bool
  pf_timers :: timer_table

definition new_prefetch_scheduler :: "'a cached InMemoryCacheService \<Rightarrow> 'a DataPrefetchScheduler" where
  "new_prefetch_scheduler c =
     \<lparr>pf_cache = c, pf_worker = worker_init, pf_started = False, pf_oddsTimer = None,
      pf_oddsPollingActive = False, pf_listeners = True, pf_timers = no_timers\<rparr>"

definition pf_start ::
  "'a DataPrefetchScheduler \<Rightarrow> (string \<Rightarrow> (string + 'a list) list) \<Rightarrow> int \<Rightarrow> 'a DataPrefetchScheduler" where
  "pf_start s live now =
     (if pf_started s then s
      else
        (let s1 = s\<lparr>pf_started := True\<rparr>;
             s2 = s1\<lparr>pf_cache := prefetchAllMatchLists (pf_cache s1) PREFETCH_SPORTS live now\<rparr>;
             (h, t) = setInterval (pf_timers s2) OddsTier POLL_INTERVAL_LIVE_ODDS
         in s2\<lparr>pf_oddsTimer := Some h, pf_timers := t\<rparr>))"

definition pf_stop :: "'a DataPrefetchScheduler \<Rightarrow> 'a DataPrefetchScheduler" where
  "pf_stop s =
     (if \<not> pf_started s then s
      else s\<lparr>pf_timers := clearInterval (pf_timers s) (pf_oddsTimer s), pf_listeners := False,
              pf_started := False\<rparr>)"

section \<open>Exchange polling scheduler: the odds tick\<close>

text \<open>The listener of \<^verbatim>\<open>TICK_COMPLETE\<close> that the scheduler's constructor registers.\<close>

definition on_tick_complete :: "'a ExchangePollingScheduler \<Rightarrow> 'a ExchangePollingScheduler" where
  "on_tick_complete s = s\<lparr>oddsPollingActive := False\<rparr>"

text \<open>
  \<^verbatim>\<open>this.worker.emit(FETCH_ODDS, entries)\<close>: the worker's listener enqueues the entries,
  and a \<^verbatim>\<open>TICK_COMPLETE\<close> emitted on the way reaches the scheduler's listener. With the
  listeners detached the event has no effect.
\<close>

definition emit_fetch_odds ::
  "'a ExchangePollingScheduler \<Rightarrow> HotGmidEntry list \<Rightarrow> 'a ExchangePollingScheduler" where
  "emit_fetch_odds s entries =
     (if listeners s then
        (case enqueue (worker s) entries of
           (tick_complete, w) \<Rightarrow>
             if tick_complete then on_tick_complete (s\<lparr>worker := w\<rparr>) else s\<lparr>worker := w\<rparr>)
      else s)"

text \<open>A fetch of the worker settles; its \<^verbatim>\<open>finally\<close> callback is no listener and always runs.\<close>

definition fetch_settles :: "'a ExchangePollingScheduler \<Rightarrow> nat \<Rightarrow> 'a ExchangePollingScheduler" where
  "fetch_settles s i =
     (case fetch_settled (worker s) i of
        (tick_complete, w) \<Rightarrow>
          if tick_complete \<and> listeners s then on_tick_complete (s\<lparr>worker := w\<rparr>) else s\<lparr>worker := w\<rparr>)"

text \<open>
  \<^verbatim>\<open>pollHotGmidOdds\<close> in the two parts the \<^verbatim>\<open>await\<close> cuts it into. \<open>poll_begin\<close> is the
  guard, up to the call of \<^verbatim>\<open>getHotGmids\<close>; \<open>poll_resume\<close> is the rest, run when the promise
  of \<^verbatim>\<open>getHotGmids\<close> settles, with the hot entries or with the error it rejects with.
\<close>

definition poll_begin :: "'a ExchangePollingScheduler \<Rightarrow> 'a ExchangePollingScheduler" where
  "poll_begin s = (if oddsPollingActive s then s else s\<lparr>awaiting_hot := Suc (awaiting_hot s)\<rparr>)"

definition poll_resume ::
  "'a ExchangePollingScheduler \<Rightarrow> string + HotGmidEntry list \<Rightarrow> 'a ExchangePollingScheduler" where
  "poll_resume s r =
     (if awaiting_hot s = 0 then s
      else
        (let s1 = s\<lparr>awaiting_hot := awaiting_hot s - 1\<rparr>
         in case r of
              Inl err \<Rightarrow> s1\<lparr>oddsPollingActive := False\<rparr>
            | Inr hotEntries \<Rightarrow>
                if length hotEntries = 0 then s1
                else emit_fetch_odds (s1\<lparr>oddsPollingActive := True\<rparr>) hotEntries))"

text \<open>
  With the in-memory cache nothing is waited for inside \<^verbatim>\<open>getHotGmids\<close>, and no other
  timer callback runs before the handler is through: the whole of \<^verbatim>\<open>pollHotGmidOdds\<close>.
\<close>

definition pollHotGmidOdds :: "'a ExchangePollingScheduler \<Rightarrow> int \<Rightarrow> 'a ExchangePollingScheduler" where
  "pollHotGmidOdds s now =
     (if oddsPollingActive s then s
      else
        (case getHotGmids (cache s) now of
           (hotEntries, c) \<Rightarrow> poll_resume ((poll_begin s)\<lparr>cache := c\<rparr>) (Inr hotEntries)))"

datatype sched_event =
    TickBegin
  | TickResume "string + HotGmidEntry list"
  | Tick int
  | FetchSettles nat
  | MarkHot string int int

fun sched_step :: "'a ExchangePollingScheduler \<Rightarrow> sched_event \<Rightarrow> 'a ExchangePollingScheduler" where
  "sched_step s TickBegin = poll_begin s"
| "sched_step s (TickResume r) = poll_resume s r"
| "sched_step s (Tick now) = pollHotGmidOdds s now"
| "sched_step s (FetchSettles i) = fetch_settles s i"
| "sched_step s (MarkHot g sp now) = s\<lparr>cache := markGmidHot (cache s) (config s) g sp now\<rparr>"

definition sched_run :: "'a ExchangePollingScheduler \<Rightarrow> sched_event list \<Rightarrow> 'a ExchangePollingScheduler" where
  "sched_run s evs = foldl sched_step s evs"

text \<open>
  \<open>whole_ticks evs\<close>: every tick of the history runs as a whole, none is cut at its
  \<^verbatim>\<open>await\<close>.
\<close>

fun whole_ticks :: "sched_event list \<Rightarrow> bool" where
  "whole_ticks [] = True"
| "whole_ticks (TickBegin # evs) = False"
| "whole_ticks (TickResume r # evs) = False"
| "whole_ticks (ev # evs) = whole_ticks evs"

text \<open>
  The worker is either idle, with nothing queued and nothing in progress, or processing
  with a fetch in progress; and the flag of the scheduler says which.
\<close>

definition worker_state_ok :: "'e OddsFetchWorker \<Rightarrow> bool" where
  "worker_state_ok w \<longleftrightarrow>
     worker_inv w \<and> (if processing w then 0 < activeCount w else queue w = [] \<and> activeCount w = 0)"

definition sched_ok :: "'a ExchangePollingScheduler \<Rightarrow> bool" where
  "sched_ok s \<longleftrightarrow>
     worker_state_ok (worker s) \<and> awaiting_hot s = 0 \<and> listeners s \<and>
     oddsPollingActive s = processing (worker s)"

section \<open>Redis cache service\<close>

text \<open>
  Embedding of \<^verbatim>\<open>RedisCacheService\<close>. The class has no state of its own but the
  connection and the key prefix. The server behind the connection, taken to answer every
  command, is a table from keys to a value and the time at which the key expires:
  \<^verbatim>\<open>SETEX key seconds value\<close> stores the value to expire \<open>seconds\<close> later and is refused
  for a time that is not positive, \<^verbatim>\<open>GET\<close> returns the value of a key that is present and
  has not expired. A value is stored as its JSON text and parsed when read: the model
  keeps the value that is read back, \<open>None\<close> for a value whose JSON text is \<^verbatim>\<open>null\<close>
  (\<^verbatim>\<open>null\<close> itself, or a number that is not finite). \<open>calls\<close> holds the calls of
  \<^verbatim>\<open>getOrSet\<close> that wait at \<^verbatim>\<open>await factory()\<close>, each with its key and TTL.
\<close>

record 'v RedisCacheService =
  server :: "(string \<times> 'v option \<times> int) list"
  prefix :: string
  calls :: "(nat \<times> key \<times> int) list"
  next_call :: nat

definition redis_empty :: "'v RedisCacheService" where
  "redis_empty = \<lparr>server = [], prefix = ''sn:'', calls = [], next_call = 0\<rparr>"

text \<open>
  \<^verbatim>\<open>get\<close>: \<^verbatim>\<open>null\<close> for a key that is absent or has expired, and for a key whose stored
  text parses to \<^verbatim>\<open>null\<close>.
\<close>

definition redis_get :: "'v RedisCacheService \<Rightarrow> key \<Rightarrow> int \<Rightarrow> 'v option" where
  "redis_get s k now =
     (case map_of (server s) (prefix s @ k) of
        None \<Rightarrow> None
      | Some (v, expires) \<Rightarrow> if now < expires then v else None)"

text \<open>\<^verbatim>\<open>set\<close>: a refused command is an error, which is caught and logged.\<close>

definition redis_set :: "'v RedisCacheService \<Rightarrow> key \<Rightarrow> 'v option \<Rightarrow> int \<Rightarrow> int \<Rightarrow> 'v RedisCacheService" where
  "redis_set s k v ttlSeconds now =
     (if 0 < ttlSeconds then
        s\<lparr>server := AList.update (prefix s @ k) (v, now + ttlSeconds * 1000) (server s)\<rparr>
      else s)"

text \<open>
  \<^verbatim>\<open>getOrSet\<close> up to \<^verbatim>\<open>await factory()\<close>: what \<^verbatim>\<open>get\<close> returns is handed back when it
  is not \<^verbatim>\<open>null\<close>, otherwise the factory is called and the caller waits for it.
\<close>

definition redis_getOrSet :: "'v RedisCacheService \<Rightarrow> key \<Rightarrow> int \<Rightarrow> int \<Rightarrow> 'v reply \<times> 'v RedisCacheService" where
  "redis_getOrSet s k ttlSeconds now =
     (case redis_get s k now of
        Some cached \<Rightarrow> (Served cached, s)
      | None \<Rightarrow>
          (Awaits (next_call s),
           s\<lparr>calls := calls s @ [(next_call s, k, ttlSeconds)], next_call := Suc (next_call s)\<rparr>))"

text \<open>
  The rest of \<^verbatim>\<open>getOrSet\<close>, run when the factory of call \<open>n\<close> settles at time \<open>now\<close>: a
  value, \<^verbatim>\<open>null\<close> included, is stored and returned, a rejection goes to the caller and
  nothing is stored.
\<close>

definition redis_factory_settled ::
  "'v RedisCacheService \<Rightarrow> nat \<Rightarrow> 'v option outcome \<Rightarrow> int \<Rightarrow> 'v RedisCacheService" where
  "redis_factory_settled s n out now =
     (case map_of (calls s) n of
        None \<Rightarrow> s
      | Some (k, ttlSeconds) \<Rightarrow>
          (let s1 = s\<lparr>calls := AList.delete n (calls s)\<rparr>
           in case out of Resolved v \<Rightarrow> redis_set s1 k v ttlSeconds now | Rejected err \<Rightarrow> s1))"

text \<open>The factory executions in progress for a key.\<close>

definition redis_executing :: "'v RedisCacheService \<Rightarrow> key \<Rightarrow> nat list" where
  "redis_executing s k = map fst (filter (\<lambda>(n, k', ttl). k' = k) (calls s))"

text \<open>Callers of \<^verbatim>\<open>getOrSet\<close> for one key, one after the other, at the given times.\<close>

fun redis_callers :: "'v RedisCacheService \<Rightarrow> key \<Rightarrow> int \<Rightarrow> int list \<Rightarrow> 'v RedisCacheService" where
  "redis_callers s k ttlSeconds [] = s"
| "redis_callers s k ttlSeconds (now # nows) =
     redis_callers (snd (redis_getOrSet s k ttlSeconds now)) k ttlSeconds nows"

section \<open>Example states and histories\<close>

text \<open>Concrete caches, schedulers and histories on which the theorems below are run.\<close>

definition round_trip_history :: "(nat cache_call \<times> int) list" where
  "round_trip_history =
     [(Get ''exchange:odds:1'', 3000), (Set ''exchange:odds:2'' 8 2, 3500),
      (Keys ''exchange:*'', 4000), (Del ''exchange:odds:2'', 4500)]"

definition expired_cache :: "nat cached InMemoryCacheService" where
  "expired_cache =
     mem_set (markGmidHot mem_empty DEFAULT_POLL_CONFIG ''G1'' 1 0) ''exchange:sports'' (Sports [1]) 86400 0"

definition expired_history :: "(nat cached cache_call \<times> int) list" where
  "expired_history =
     [(Keys ''xhot:gmid:*'', 70000), (Get ''xhot:gmid:G2'', 80000),
      (Set ''exchange:odds:G1'' (MarketOdds [3]) 2, 90000), (GetOrSet ''xhot:gmid:G1'' 30, 95000)]"

definition hot_history :: "(nat cached cache_call \<times> int) list" where
  "hot_history =
     [(Get ''exchange:odds:G1'', 1000), (Set ''exchange:odds:G1'' (MarketOdds [3]) 2, 1200),
      (Keys ''xhot:gmid:*'', 2000), (Get ''xhot:gmid:G1'', 2000)]"

definition co_history :: "nat co_event list" where
  "co_history =
     [Coalesce ''odds:G1'', Coalesce ''odds:G2'', Coalesce ''odds:G1'', Settled 1 (Rejected ''timeout''),
      Coalesce ''odds:G1'']"

definition swr_cache :: "nat InMemoryCacheService" where
  "swr_cache = mem_set mem_empty ''exchange:matches:4'' 11 120 0"

definition worker_history :: "nat worker_event list" where
  "worker_history = [Enqueue [1, 2, 3, 4, 5, 6, 7], FetchSettled 2, Enqueue [8, 9], FetchSettled 0]"

definition odds_cache :: "nat cached InMemoryCacheService" where
  "odds_cache =
     mem_set (mem_set mem_empty ''exchange:odds:G1'' (MarketOdds [3, 4]) 2 1000)
       ''exchange:matches:1'' (MatchList 9) 120 1000"

definition null_for_football :: "int \<Rightarrow> string + nat option" where
  "null_for_football s = (if s = 1 then Inr None else if s = 2 then Inl ''timeout'' else Inr (Some 5))"

definition some_answers :: "nat provider_responses" where
  "some_answers =
     \<lparr>sports_response = Inr [1, 2], matchList_response = (\<lambda>s. if s = 4 then Inr (Some 7) else Inr None),
      topEvents_response = Inr [], banners_response = Inl ''timeout'', sidebar_response = Inr (Some 3)\<rparr>"

definition some_matches :: "string \<Rightarrow> (string + nat list) list" where
  "some_matches sport = (if sport = ''cricket'' then [Inr [1, 2], Inl ''down''] else [])"

definition fresh_scheduler :: "nat ExchangePollingScheduler" where
  "fresh_scheduler = new_scheduler mem_empty DEFAULT_POLL_CONFIG"

definition fresh_prefetch_scheduler :: "nat DataPrefetchScheduler" where
  "fresh_prefetch_scheduler = new_prefetch_scheduler mem_empty"

definition two_hot :: "HotGmidEntry list" where
  "two_hot = [\<lparr>gmid = ''G1'', sid = 4\<rparr>, \<lparr>gmid = ''G2'', sid = 1\<rparr>]"


section \<open>Properties of the in-memory cache\<close>

lemma map_of_alist_delete: "map_of (AList.delete k al) k' = (if k' = k then None else map_of al k')"
  by (simp add: AList.delete_conv')

lemma map_of_alist_update: "map_of (AList.update k v al) k' = (if k' = k then Some v else map_of al k')"
  by (simp add: AList.update_conv')

lemma store_mem_coalesce: "store (snd (mem_coalesce s k ttl)) = store s"
  by (simp add: mem_coalesce_def Let_def split: option.splits)

lemma store_mem_getOrSet: "store (snd (mem_getOrSet s k ttl now)) = store s"
proof -
  have "store (snd (case mem_coalesce s k ttl of (promise, s') \<Rightarrow> (Awaits promise :: 'a reply, s'))) = store s"
    using store_mem_coalesce [of s k ttl] by (simp add: split_def)
  then show ?thesis
    by (simp add: mem_getOrSet_def mem_refreshInBackground_def store_mem_coalesce Let_def)
qed

lemma store_mem_get:
  "map_of (store (snd (mem_get s k' now))) k =
     (case map_of (store s) k of
        None \<Rightarrow> None
      | Some e \<Rightarrow> if k' = k \<and> now > staleUntil e then None else Some e)"
  by (auto simp: mem_get_def map_of_alist_delete split: option.splits)

lemma snd_mem_exists: "snd (mem_exists s k now) = snd (mem_get s k now)"
  by (simp add: mem_exists_def split: prod.splits)

lemma store_mem_call_quiet:
  assumes "\<not> writes_key s c k"
  shows "map_of (store (mem_call s c now)) k = map_of (store s) k \<or>
         (\<exists>e. map_of (store s) k = Some e \<and> now > staleUntil e \<and>
              map_of (store (mem_call s c now)) k = None)"
proof (cases c)
  case (Get k')
  then show ?thesis by (auto simp: store_mem_get split: option.splits)
next
  case (Exists k')
  then show ?thesis by (auto simp: snd_mem_exists store_mem_get split: option.splits)
next
  case (Set k' v ttl)
  with assms show ?thesis by (simp add: mem_set_def map_of_alist_update Let_def)
next
  case (Del k')
  with assms show ?thesis by (simp add: mem_del_def map_of_alist_delete)
next
  case Flush
  with assms show ?thesis by simp
next
  case (Keys p)
  then show ?thesis by simp
next
  case (GetOrSet k' ttl)
  then show ?thesis by (simp add: store_mem_getOrSet)
next
  case (Settle p out)
  show ?thesis
  proof (cases "map_of (factories s) p")
    case None
    with Settle show ?thesis by (simp add: mem_settle_def)
  next
    case (Some a)
    obtain k' ttl where a: "a = (k', ttl)" by (cases a)
    show ?thesis
    proof (cases out)
      case (Resolved v)
      with Settle Some a assms have "k' \<noteq> k" by simp
      with Settle Some a Resolved show ?thesis
        by (simp add: mem_settle_def mem_set_def map_of_alist_update Let_def)
    next
      case (Rejected e)
      with Settle Some a show ?thesis by (simp add: mem_settle_def)
    qed
  qed
qed

lemma quiet_keeps_entry:
  "quiet k s cs \<Longrightarrow> before t cs \<Longrightarrow> map_of (store s) k = Some e \<Longrightarrow> t \<le> staleUntil e \<Longrightarrow>
   map_of (store (mem_run s cs)) k = Some e"
proof (induction cs arbitrary: s)
  case Nil
  then show ?case by simp
next
  case (Cons a cs)
  obtain c now where a: "a = (c, now)" by (cases a)
  from Cons.prems a have nw: "\<not> writes_key s c k" and q: "quiet k (mem_call s c now) cs"
    and le: "now \<le> t" and b: "before t cs" by simp_all
  from store_mem_call_quiet [OF nw, of now] Cons.prems(3,4) le
  have "map_of (store (mem_call s c now)) k = Some e" by auto
  from Cons.IH [OF q b this Cons.prems(4)] a show ?case by simp
qed

lemma quiet_no_other_entry:
  "quiet k s cs \<Longrightarrow> map_of (store s) k = None \<or> map_of (store s) k = Some e \<Longrightarrow>
   map_of (store (mem_run s cs)) k = None \<or> map_of (store (mem_run s cs)) k = Some e"
proof (induction cs arbitrary: s)
  case Nil
  then show ?case by simp
next
  case (Cons a cs)
  obtain c now where a: "a = (c, now)" by (cases a)
  from Cons.prems a have nw: "\<not> writes_key s c k" and q: "quiet k (mem_call s c now) cs"
    by simp_all
  from store_mem_call_quiet [OF nw, of now] Cons.prems(2)
  have "map_of (store (mem_call s c now)) k = None \<or> map_of (store (mem_call s c now)) k = Some e"
    by auto
  from Cons.IH [OF q this] a show ?case by simp
qed

lemma store_after_set:
  "map_of (store (mem_set s k v ttl t0)) k =
     Some \<lparr>entry_value = v, freshUntil = t0 + ttl * 1000, staleUntil = t0 + ttl * 1000 * STALE_MULTIPLIER\<rparr>"
  by (simp add: mem_set_def map_of_alist_update Let_def)

text \<open>
  C6. After \<^verbatim>\<open>set(K, v, ttl)\<close> at time \<open>t0\<close>, and after any history of calls none of
  which sets, deletes or flushes the entry of \<open>K\<close>, \<^verbatim>\<open>get(K)\<close> at a time \<open>t\<close> with
  \<open>t0 \<le> t \<le> t0 + ttl \<times> STALE_MULTIPLIER\<close> (the TTL in seconds, the clock in milliseconds)
  returns \<open>v\<close>, the history having run no later than \<open>t\<close>; and at any time after
  \<open>t0 + ttl \<times> STALE_MULTIPLIER\<close> it returns \<^verbatim>\<open>null\<close>.
\<close>

theorem set_get_round_trip:
  assumes "quiet k (mem_set s k v ttl t0) cs"
  shows "(before t cs \<and> t0 \<le> t \<and> t \<le> t0 + ttl * 1000 * STALE_MULTIPLIER \<longrightarrow>
            fst (mem_get (mem_run (mem_set s k v ttl t0) cs) k t) = Some v) \<and>
         (t > t0 + ttl * 1000 * STALE_MULTIPLIER \<longrightarrow>
            fst (mem_get (mem_run (mem_set s k v ttl t0) cs) k t) = None)"
proof -
  let ?e = "\<lparr>entry_value = v, freshUntil = t0 + ttl * 1000, staleUntil = t0 + ttl * 1000 * STALE_MULTIPLIER\<rparr>"
  let ?s = "mem_run (mem_set s k v ttl t0) cs"
  have e: "map_of (store (mem_set s k v ttl t0)) k = Some ?e" by (rule store_after_set)
  have "fst (mem_get ?s k t) = Some v"
    if "before t cs" and "t \<le> t0 + ttl * 1000 * STALE_MULTIPLIER"
  proof -
    from that have "t \<le> staleUntil ?e" by simp
    from quiet_keeps_entry [OF assms that(1) e this]
    have "map_of (store ?s) k = Some ?e" .
    with that(2) show ?thesis by (simp add: mem_get_def)
  qed
  moreover have "fst (mem_get ?s k t) = None" if "t > t0 + ttl * 1000 * STALE_MULTIPLIER"
  proof -
    from quiet_no_other_entry [OF assms, of ?e] e
    have "map_of (store ?s) k = None \<or> map_of (store ?s) k = Some ?e" by simp
    with that show ?thesis by (auto simp: mem_get_def)
  qed
  ultimately show ?thesis by blast
qed

theorem set_get_round_trip_witness:
  "quiet ''exchange:odds:1'' (mem_set mem_empty ''exchange:odds:1'' (7::nat) 2 1000) round_trip_history \<and>
   before 5000 round_trip_history \<and>
   fst (mem_get (mem_run (mem_set mem_empty ''exchange:odds:1'' (7::nat) 2 1000) round_trip_history)
         ''exchange:odds:1'' 5000) = Some 7 \<and>
   fst (mem_get (mem_run (mem_set mem_empty ''exchange:odds:1'' (7::nat) 2 1000) round_trip_history)
         ''exchange:odds:1'' 5001) = None"
proof -
  have q: "quiet ''exchange:odds:1'' (mem_set mem_empty ''exchange:odds:1'' (7::nat) 2 1000) round_trip_history"
    by (simp add: round_trip_history_def)
  have b: "before 5000 round_trip_history"
    by (simp add: round_trip_history_def)
  from set_get_round_trip [OF q, of 5000] set_get_round_trip [OF q, of 5001] q b
  show ?thesis by (simp add: STALE_MULTIPLIER_def)
qed

subsection \<open>Enumerating hot keys\<close>

lemma mem_get_again:
  "fst (mem_get (snd (mem_get s k' now)) k now) = fst (mem_get s k now)"
  by (auto simp: mem_get_def map_of_alist_delete split: option.splits)

lemma hot_entries_Cons:
  "fst (hot_entries c (k # ks) now) =
     hot_entry k (fst (mem_get c k now)) # fst (hot_entries (snd (mem_get c k now)) ks now)"
  "snd (hot_entries c (k # ks) now) = snd (hot_entries (snd (mem_get c k now)) ks now)"
  by (simp_all add: split_def)

lemma mem_get_hot_entries:
  "fst (mem_get (snd (hot_entries c ks now)) k now) = fst (mem_get c k now)"
proof (induction ks arbitrary: c)
  case Nil
  then show ?case by simp
next
  case (Cons k' ks)
  then show ?case by (simp only: hot_entries_Cons mem_get_again)
qed

lemma fst_hot_entries:
  "fst (hot_entries c ks now) = map (\<lambda>k. hot_entry k (fst (mem_get c k now))) ks"
proof (induction ks arbitrary: c)
  case Nil
  then show ?case by simp
next
  case (Cons k ks)
  have "fst (hot_entries (snd (mem_get c k now)) ks now) =
        map (\<lambda>k'. hot_entry k' (fst (mem_get (snd (mem_get c k now)) k' now))) ks"
    by (rule Cons.IH)
  then show ?case by (simp only: hot_entries_Cons mem_get_again list.map)
qed

lemma store_hot_entries:
  "map_of (store (snd (hot_entries c ks now))) k =
     (case map_of (store c) k of
        None \<Rightarrow> None
      | Some e \<Rightarrow> if k \<in> set ks \<and> now > staleUntil e then None else Some e)"
proof (induction ks arbitrary: c)
  case Nil
  then show ?case by (simp split: option.splits)
next
  case (Cons k' ks)
  show ?case
    by (simp only: hot_entries_Cons Cons.IH store_mem_get) (auto split: option.splits)
qed

lemma regex_test_star: "list_all dot_matches r \<Longrightarrow> regex_test ''*'' r"
  by (induction r) simp_all

lemma regex_test_literal:
  "CHR ''*'' \<notin> set lit \<Longrightarrow> CHR ''?'' \<notin> set lit \<Longrightarrow>
   regex_test (lit @ ps) k = (\<exists>r. k = lit @ r \<and> regex_test ps r)"
proof (induction lit arbitrary: k)
  case Nil
  then show ?case by simp
next
  case (Cons a lit)
  then show ?case by (cases k) auto
qed

lemma regex_hotGmidPattern:
  "regex_test hotGmidPattern k = (\<exists>r. k = HOT_GMID_PREFIX @ r \<and> regex_test ''*'' r)"
  unfolding hotGmidPattern_def
  by (rule regex_test_literal) (simp_all add: HOT_GMID_PREFIX_def)

lemma regex_hotMatchPattern:
  "regex_test hotMatchPattern k = (\<exists>r. k = HOT_KEY_PREFIX @ r \<and> regex_test ''*'' r)"
  unfolding hotMatchPattern_def
  by (rule regex_test_literal) (simp_all add: HOT_KEY_PREFIX_def)

lemma replace_first_prefix: "pat \<noteq> [] \<Longrightarrow> replace_first pat [] (pat @ g) = g"
  by (cases pat) simp_all

lemma gmid_hot_entry: "gmid (hot_entry (HOT_GMID_PREFIX @ r) raw) = r"
proof -
  have "replace_first HOT_GMID_PREFIX [] (HOT_GMID_PREFIX @ r) = r"
    by (rule replace_first_prefix) (simp add: HOT_GMID_PREFIX_def)
  then show ?thesis
    by (simp add: hot_entry_def Let_def split: option.splits cached.splits)
qed

lemma mem_keys_iff: "k \<in> set (mem_keys s pattern) \<longleftrightarrow> regex_test pattern k \<and> k \<in> fst ` set (store s)"
  by (auto simp: mem_keys_def)

lemma in_store_keys: "map_of (store s) k = Some e \<Longrightarrow> k \<in> fst ` set (store s)"
  by (metis map_of_SomeD fst_conv image_eqI)

lemma in_store_keys_iff: "k \<in> fst ` set al \<longleftrightarrow> map_of al k \<noteq> None"
  by (simp add: map_of_eq_None_iff)

lemma unread_keeps_entry:
  "quiet k s cs \<Longrightarrow> unread k cs \<Longrightarrow> map_of (store s) k = Some e \<Longrightarrow>
   map_of (store (mem_run s cs)) k = Some e"
proof (induction cs arbitrary: s)
  case Nil
  then show ?case by simp
next
  case (Cons a cs)
  obtain c now where a: "a = (c, now)" by (cases a)
  from Cons.prems a have nw: "\<not> writes_key s c k" and q: "quiet k (mem_call s c now) cs"
    and nr: "c \<noteq> Get k" "c \<noteq> Exists k" and u: "unread k cs" by simp_all
  have "map_of (store (mem_call s c now)) k = Some e"
  proof (cases c)
    case (Get k')
    with nr Cons.prems(3) show ?thesis by (simp add: store_mem_get)
  next
    case (Exists k')
    with nr Cons.prems(3) show ?thesis by (simp add: snd_mem_exists store_mem_get)
  next
    case (Set k' v ttl)
    with nw Cons.prems(3) show ?thesis by (simp add: mem_set_def map_of_alist_update Let_def)
  next
    case (Del k')
    with nw Cons.prems(3) show ?thesis by (simp add: mem_del_def map_of_alist_delete)
  next
    case Flush
    with nw show ?thesis by simp
  next
    case (Keys p)
    with Cons.prems(3) show ?thesis by simp
  next
    case (GetOrSet k' ttl)
    with Cons.prems(3) show ?thesis by (simp add: store_mem_getOrSet)
  next
    case (Settle p out)
    from store_mem_call_quiet [OF nw, of now] Cons.prems(3) Settle
    show ?thesis
      by (cases "map_of (factories s) p"; cases out)
         (auto simp: mem_settle_def mem_set_def map_of_alist_update Let_def split: if_splits)
  qed
  from Cons.IH [OF q u this] a show ?case by simp
qed

lemma expired_hot_listed:
  assumes "map_of (store c) (hotGmid g) = Some e" and "staleUntil e < now" and "list_all dot_matches g"
  shows "\<lparr>gmid = g, sid = 4\<rparr> \<in> set (fst (getHotGmids c now))"
proof -
  have "regex_test hotGmidPattern (hotGmid g)"
    unfolding regex_hotGmidPattern hotGmid_def using regex_test_star [OF assms(3)] by blast
  with assms(1) have k: "hotGmid g \<in> set (mem_keys c hotGmidPattern)"
    by (simp add: mem_keys_iff in_store_keys)
  have "replace_first HOT_GMID_PREFIX [] (HOT_GMID_PREFIX @ g) = g"
    by (rule replace_first_prefix) (simp add: HOT_GMID_PREFIX_def)
  with assms(1,2) have "hot_entry (hotGmid g) (fst (mem_get c (hotGmid g) now)) = \<lparr>gmid = g, sid = 4\<rparr>"
    by (simp add: mem_get_def hot_entry_def hotGmid_def)
  with k show ?thesis
    by (force simp: getHotGmids_def fst_hot_entries)
qed

lemma live_hot_listed:
  assumes "map_of (store c) (hotGmid g) = Some e" and "now \<le> staleUntil e"
    and "entry_value e = HotRecord g' s ts" and "list_all dot_matches g"
  shows "\<lparr>gmid = g, sid = s\<rparr> \<in> set (fst (getHotGmids c now))"
proof -
  have "regex_test hotGmidPattern (hotGmid g)"
    unfolding regex_hotGmidPattern hotGmid_def using regex_test_star [OF assms(4)] by blast
  with assms(1) have k: "hotGmid g \<in> set (mem_keys c hotGmidPattern)"
    by (simp add: mem_keys_iff in_store_keys)
  have "replace_first HOT_GMID_PREFIX [] (HOT_GMID_PREFIX @ g) = g"
    by (rule replace_first_prefix) (simp add: HOT_GMID_PREFIX_def)
  with assms(1,2,3) have "hot_entry (hotGmid g) (fst (mem_get c (hotGmid g) now)) = \<lparr>gmid = g, sid = s\<rparr>"
    by (simp add: mem_get_def hot_entry_def hotGmid_def)
  with k show ?thesis
    by (force simp: getHotGmids_def fst_hot_entries)
qed

lemma hot_match_listed:
  assumes "map_of (store c) (hotMatch m) = Some e" and "list_all dot_matches m"
  shows "m \<in> set (getHotMatchIds c)"
proof -
  have "regex_test hotMatchPattern (hotMatch m)"
    unfolding regex_hotMatchPattern hotMatch_def using regex_test_star [OF assms(2)] by blast
  with assms(1) have k: "hotMatch m \<in> set (mem_keys c hotMatchPattern)"
    by (simp add: mem_keys_iff in_store_keys)
  have "replace_first HOT_KEY_PREFIX [] (HOT_KEY_PREFIX @ m) = m"
    by (rule replace_first_prefix) (simp add: HOT_KEY_PREFIX_def)
  with k show ?thesis
    by (force simp: getHotMatchIds_def hotMatch_def)
qed

lemma unlisted_key_not_listed:
  assumes "hotGmid g \<notin> set (mem_keys c hotGmidPattern)"
  shows "\<forall>x \<in> set (fst (getHotGmids c now)). gmid x \<noteq> g"
proof
  fix x assume "x \<in> set (fst (getHotGmids c now))"
  then obtain k where k: "k \<in> set (mem_keys c hotGmidPattern)"
    and x: "x = hot_entry k (fst (mem_get c k now))"
    by (auto simp: getHotGmids_def fst_hot_entries)
  from k have rt: "regex_test hotGmidPattern k"
    by (simp add: mem_keys_iff)
  from rt obtain r where r: "k = HOT_GMID_PREFIX @ r"
    unfolding regex_hotGmidPattern by blast
  from x r have "gmid x = r" by (simp add: gmid_hot_entry)
  moreover from k assms have "k \<noteq> hotGmid g" by auto
  ultimately show "gmid x \<noteq> g" using r by (auto simp: hotGmid_def)
qed

lemmas cache_defs =
  mem_empty_def mem_get_def mem_set_def mem_del_def mem_exists_def mem_flush_def mem_keys_def
  mem_coalesce_def mem_settle_def mem_refreshInBackground_def mem_getOrSet_def
  STALE_MULTIPLIER_def dot_matches_def

lemmas hot_defs =
  markGmidHot_def getHotGmids_def hot_entry_def hotGmid_def hotGmidPattern_def HOT_GMID_PREFIX_def
  DEFAULT_POLL_CONFIG_def markMatchHot_def getHotMatchIds_def hotMatch_def hotMatchPattern_def
  HOT_KEY_PREFIX_def HOT_MATCH_TTL_def

subsection \<open>The keys a pattern selects\<close>

lemma regex_test_any:
  "regex_test (CHR ''*'' # ps) k = (\<exists>a b. k = a @ b \<and> list_all dot_matches a \<and> regex_test ps b)"
proof (induction k)
  case Nil
  show ?case by simp
next
  case (Cons c cs)
  show ?case
  proof
    assume "regex_test (CHR ''*'' # ps) (c # cs)"
    then have "regex_test ps (c # cs) \<or> (dot_matches c \<and> regex_test (CHR ''*'' # ps) cs)" by simp
    then show "\<exists>a b. c # cs = a @ b \<and> list_all dot_matches a \<and> regex_test ps b"
    proof
      assume "regex_test ps (c # cs)"
      then have "c # cs = [] @ (c # cs) \<and> list_all dot_matches [] \<and> regex_test ps (c # cs)" by simp
      then show ?thesis by blast
    next
      assume r: "dot_matches c \<and> regex_test (CHR ''*'' # ps) cs"
      with Cons.IH obtain a b where "cs = a @ b" "list_all dot_matches a" "regex_test ps b" by blast
      with r have "c # cs = (c # a) @ b \<and> list_all dot_matches (c # a) \<and> regex_test ps b" by simp
      then show ?thesis by blast
    qed
  next
    assume "\<exists>a b. c # cs = a @ b \<and> list_all dot_matches a \<and> regex_test ps b"
    then obtain a b where ab: "c # cs = a @ b" "list_all dot_matches a" "regex_test ps b" by blast
    show "regex_test (CHR ''*'' # ps) (c # cs)"
    proof (cases a)
      case Nil
      with ab show ?thesis by simp
    next
      case (Cons x a')
      with ab have "x = c" "cs = a' @ b" "dot_matches c" "list_all dot_matches a'" by simp_all
      with ab(3) Cons.IH show ?thesis by auto
    qed
  qed
qed

lemma regex_test_one:
  "regex_test (CHR ''?'' # ps) k = (\<exists>x b. k = x # b \<and> dot_matches x \<and> regex_test ps b)"
  by (cases k) simp_all

lemma regex_test_char:
  "\<not> regex_special p \<Longrightarrow> regex_test (p # ps) k = (\<exists>b. k = p # b \<and> regex_test ps b)"
  by (cases k) (auto simp: regex_special_def)

lemma regex_test_star_iff: "regex_test ''*'' r = list_all dot_matches r"
  by (simp only: regex_test_any) simp

lemma glob_hot_patterns: "glob_pattern hotGmidPattern" "glob_pattern hotMatchPattern"
  by (simp_all add: glob_pattern_def regex_special_def hotGmidPattern_def hotMatchPattern_def
      HOT_GMID_PREFIX_def HOT_KEY_PREFIX_def)

lemma mem_keys_exact:
  "k \<in> set (mem_keys c pattern) \<longleftrightarrow> regex_test pattern k \<and> map_of (store c) k \<noteq> None"
  by (simp add: mem_keys_iff in_store_keys_iff)

lemma hot_keys_exact:
  "k \<in> set (mem_keys c hotGmidPattern) \<longleftrightarrow>
     (\<exists>g. k = hotGmid g \<and> list_all dot_matches g) \<and> map_of (store c) k \<noteq> None"
  by (simp only: mem_keys_exact regex_hotGmidPattern regex_test_star_iff hotGmid_def)

lemma gmids_listed:
  "gmid ` set (fst (getHotGmids c now)) =
     {g. list_all dot_matches g \<and> map_of (store c) (hotGmid g) \<noteq> None}"
proof (intro set_eqI iffI)
  fix g assume "g \<in> gmid ` set (fst (getHotGmids c now))"
  then obtain k where k: "k \<in> set (mem_keys c hotGmidPattern)"
    and g: "g = gmid (hot_entry k (fst (mem_get c k now)))"
    by (auto simp: getHotGmids_def fst_hot_entries)
  from k obtain r where r: "k = hotGmid r" "list_all dot_matches r" and s: "map_of (store c) k \<noteq> None"
    unfolding hot_keys_exact by blast
  from g r(1) have "g = r" by (simp add: hotGmid_def gmid_hot_entry)
  with r s show "g \<in> {g. list_all dot_matches g \<and> map_of (store c) (hotGmid g) \<noteq> None}" by simp
next
  fix g assume "g \<in> {g. list_all dot_matches g \<and> map_of (store c) (hotGmid g) \<noteq> None}"
  then have "hotGmid g \<in> set (mem_keys c hotGmidPattern)"
    unfolding hot_keys_exact by blast
  then have "hot_entry (hotGmid g) (fst (mem_get c (hotGmid g) now)) \<in> set (fst (getHotGmids c now))"
    by (simp add: getHotGmids_def fst_hot_entries)
  moreover have "gmid (hot_entry (hotGmid g) (fst (mem_get c (hotGmid g) now))) = g"
    by (simp add: hotGmid_def gmid_hot_entry)
  ultimately show "g \<in> gmid ` set (fst (getHotGmids c now))" by force
qed

lemma hot_match_ids_listed:
  "set (getHotMatchIds c) = {m. list_all dot_matches m \<and> map_of (store c) (hotMatch m) \<noteq> None}"
proof (intro set_eqI iffI)
  fix m assume "m \<in> set (getHotMatchIds c)"
  then obtain k where k: "k \<in> set (mem_keys c hotMatchPattern)"
    and m: "m = replace_first HOT_KEY_PREFIX [] k"
    by (auto simp: getHotMatchIds_def)
  from k obtain r where r: "k = HOT_KEY_PREFIX @ r" "list_all dot_matches r"
    and s: "map_of (store c) k \<noteq> None"
    unfolding mem_keys_exact regex_hotMatchPattern regex_test_star_iff by blast
  have "replace_first HOT_KEY_PREFIX [] (HOT_KEY_PREFIX @ r) = r"
    by (rule replace_first_prefix) (simp add: HOT_KEY_PREFIX_def)
  with m r(1) have "m = r" by simp
  with r s show "m \<in> {m. list_all dot_matches m \<and> map_of (store c) (hotMatch m) \<noteq> None}"
    by (simp add: hotMatch_def)
next
  fix m assume "m \<in> {m. list_all dot_matches m \<and> map_of (store c) (hotMatch m) \<noteq> None}"
  then have "list_all dot_matches m" and "map_of (store c) (hotMatch m) \<noteq> None" by simp_all
  then obtain e where "map_of (store c) (hotMatch m) = Some e" by blast
  from hot_match_listed [OF this \<open>list_all dot_matches m\<close>] show "m \<in> set (getHotMatchIds c)" .
qed

text \<open>
  C10. \<^verbatim>\<open>keys(pattern)\<close>, for a glob, returns exactly the keys of the store map that match
  the pattern, in the order of the map, and changes nothing: the expiry of an entry plays
  no part, and neither does the time of the call. The match is that of the regular
  expression: \<^verbatim>\<open>*\<close> stands for any run of characters that are not line terminators,
  \<^verbatim>\<open>?\<close> for one such character, any other character of a glob for itself. So an entry
  that is past \<open>staleUntil\<close> at time \<open>now\<close> is still returned when its key matches, stays
  in the store through any history of calls that neither reads it with \<^verbatim>\<open>get\<close> or
  \<^verbatim>\<open>exists\<close> nor writes it, and leaves the store, and the keys returned, when \<^verbatim>\<open>get\<close> is
  called on its key. Both hot-set enumerations are built on \<^verbatim>\<open>keys\<close>: at any time they
  list exactly the identifiers without a line terminator whose hot key is in the store
  map, expired or not, and \<^verbatim>\<open>getHotGmids\<close> lists an expired one with the sport id 4. The patterns of the two
  enumerations are globs.
\<close>

theorem keys_ignore_expiry:
  "(glob_pattern pattern \<longrightarrow>
      mem_keys c pattern = filter (regex_test pattern) (map fst (store c)) \<and>
      (k' \<in> set (mem_keys c pattern) \<longleftrightarrow> regex_test pattern k' \<and> map_of (store c) k' \<noteq> None) \<and>
      mem_call c (Keys pattern) now = c) \<and>
   regex_test [] k' = (k' = []) \<and>
   regex_test (CHR ''*'' # ps) k' =
     (\<exists>a b. k' = a @ b \<and> list_all dot_matches a \<and> regex_test ps b) \<and>
   regex_test (CHR ''?'' # ps) k' = (\<exists>x b. k' = x # b \<and> dot_matches x \<and> regex_test ps b) \<and>
   (\<not> regex_special p \<longrightarrow> regex_test (p # ps) k' = (\<exists>b. k' = p # b \<and> regex_test ps b)) \<and>
   dot_matches x = (x \<noteq> CHR 0x0A \<and> x \<noteq> CHR 0x0D) \<and>
   (map_of (store c) k = Some e \<and> staleUntil e < now \<longrightarrow>
      (glob_pattern pattern \<and> regex_test pattern k \<longrightarrow> k \<in> set (mem_keys c pattern)) \<and>
      (quiet k c cs \<and> unread k cs \<longrightarrow> map_of (store (mem_run c cs)) k = Some e) \<and>
      fst (mem_get c k now) = None \<and>
      map_of (store (snd (mem_get c k now))) k = None \<and>
      (glob_pattern pattern \<longrightarrow> k \<notin> set (mem_keys (snd (mem_get c k now)) pattern)) \<and>
      (list_all dot_matches g \<and> k = hotGmid g \<longrightarrow>
         \<lparr>gmid = g, sid = 4\<rparr> \<in> set (fst (getHotGmids c now)))) \<and>
   gmid ` set (fst (getHotGmids c now)) =
     {g. list_all dot_matches g \<and> map_of (store c) (hotGmid g) \<noteq> None} \<and>
   set (getHotMatchIds c) = {m. list_all dot_matches m \<and> map_of (store c) (hotMatch m) \<noteq> None} \<and>
   glob_pattern hotGmidPattern \<and> glob_pattern hotMatchPattern"
proof -
  have 1: "mem_keys c pattern = filter (regex_test pattern) (map fst (store c))"
    by (simp add: mem_keys_def)
  have 2: "k' \<in> set (mem_keys c pattern) \<longleftrightarrow> regex_test pattern k' \<and> map_of (store c) k' \<noteq> None"
    by (rule mem_keys_exact)
  have 3: "mem_call c (Keys pattern) now = c" by simp
  have 4: "regex_test [] k' = (k' = [])" by (cases k') simp_all
  have 5: "\<not> regex_special p \<longrightarrow> regex_test (p # ps) k' = (\<exists>b. k' = p # b \<and> regex_test ps b)"
    using regex_test_char by blast
  have 6: "dot_matches x = (x \<noteq> CHR 0x0A \<and> x \<noteq> CHR 0x0D)" by (simp add: dot_matches_def)
  have 7: "(regex_test pattern k \<longrightarrow> k \<in> set (mem_keys c pattern)) \<and>
      (quiet k c cs \<and> unread k cs \<longrightarrow> map_of (store (mem_run c cs)) k = Some e) \<and>
      fst (mem_get c k now) = None \<and>
      map_of (store (snd (mem_get c k now))) k = None \<and>
      k \<notin> set (mem_keys (snd (mem_get c k now)) pattern) \<and>
      (list_all dot_matches g \<and> k = hotGmid g \<longrightarrow>
         \<lparr>gmid = g, sid = 4\<rparr> \<in> set (fst (getHotGmids c now)))"
    if a: "map_of (store c) k = Some e" and b: "staleUntil e < now"
  proof -
    have a1: "regex_test pattern k \<longrightarrow> k \<in> set (mem_keys c pattern)"
      using a by (simp add: mem_keys_exact)
    have a2: "quiet k c cs \<and> unread k cs \<longrightarrow> map_of (store (mem_run c cs)) k = Some e"
      using a by (simp add: unread_keeps_entry)
    have a3: "fst (mem_get c k now) = None"
      using a b by (simp add: mem_get_def)
    have a4: "map_of (store (snd (mem_get c k now))) k = None"
      using a b by (simp add: store_mem_get)
    then have a5: "k \<notin> set (mem_keys (snd (mem_get c k now)) pattern)"
      by (simp add: mem_keys_exact)
    have a6: "list_all dot_matches g \<and> k = hotGmid g \<longrightarrow>
         \<lparr>gmid = g, sid = 4\<rparr> \<in> set (fst (getHotGmids c now))"
      using a b expired_hot_listed by blast
    from a1 a2 a3 a4 a5 a6 show ?thesis by blast
  qed
  note 8 = gmids_listed [of c now] hot_match_ids_listed [of c]
  note 9 = regex_test_any [of ps k'] regex_test_one [of ps k'] glob_hot_patterns
  show ?thesis
    apply (intro conjI impI)
    using 1 2 3 4 5 6 7 8 9 by blast+
qed

theorem keys_ignore_expiry_witness:
  "glob_pattern ''xhot:gmid:*'' \<and>
   map fst (store expired_cache) = [''xhot:gmid:G1'', ''exchange:sports''] \<and>
   mem_keys expired_cache ''xhot:gmid:*'' = [''xhot:gmid:G1''] \<and>
   mem_keys expired_cache ''exchange:sp?rts'' = [''exchange:sports''] \<and>
   ''exchange:sports'' \<notin> set (mem_keys expired_cache ''xhot:gmid:*'') \<and>
   mem_call expired_cache (Keys ''xhot:gmid:*'') 100000 = expired_cache \<and>
   map_of (store expired_cache) ''xhot:gmid:G1'' =
     Some \<lparr>entry_value = HotRecord ''G1'' 1 0, freshUntil = 30000, staleUntil = 60000\<rparr> \<and>
   quiet ''xhot:gmid:G1'' expired_cache expired_history \<and>
   unread ''xhot:gmid:G1'' expired_history \<and>
   map_of (store (mem_run expired_cache expired_history)) ''xhot:gmid:G1'' =
     Some \<lparr>entry_value = HotRecord ''G1'' 1 0, freshUntil = 30000, staleUntil = 60000\<rparr> \<and>
   fst (mem_get expired_cache ''xhot:gmid:G1'' 100000) = None \<and>
   ''xhot:gmid:G1'' \<notin> set (mem_keys (snd (mem_get expired_cache ''xhot:gmid:G1'' 100000)) ''xhot:gmid:*'') \<and>
   \<lparr>gmid = ''G1'', sid = 4\<rparr> \<in> set (fst (getHotGmids expired_cache 100000)) \<and>
   gmid ` set (fst (getHotGmids expired_cache 100000)) = {''G1''} \<and>
   set (getHotMatchIds (markMatchHot mem_empty ''m7'' 0 :: nat cached InMemoryCacheService)) = {''m7''}"
proof -
  let ?k = "''xhot:gmid:G1''"
  let ?p = "''xhot:gmid:*''"
  let ?e = "\<lparr>entry_value = HotRecord ''G1'' 1 0 :: nat cached, freshUntil = 30000, staleUntil = 60000\<rparr>"
  let ?m = "markMatchHot mem_empty ''m7'' 0 :: nat cached InMemoryCacheService"
  have g: "glob_pattern ?p" "glob_pattern ''exchange:sp?rts''"
    by (simp_all add: glob_pattern_def regex_special_def)
  have s: "map fst (store expired_cache) = [?k, ''exchange:sports'']"
    by (simp add: expired_cache_def cache_defs hot_defs)
  have h: "map_of (store expired_cache) ?k = Some ?e"
    by (simp add: expired_cache_def cache_defs hot_defs)
  have l: "staleUntil ?e < 100000" by simp
  have q: "quiet ?k expired_cache expired_history \<and> unread ?k expired_history"
    by (simp add: expired_history_def expired_cache_def cache_defs hot_defs)
  have r: "list_all dot_matches ''G1'' \<and> ?k = hotGmid ''G1''"
    by (simp add: cache_defs hot_defs)
  have n: "\<not> regex_test ?p ''exchange:sports''" by simp
  note a = keys_ignore_expiry [where pattern = ?p and c = expired_cache and k' = "''exchange:sports''"
      and now = 100000 and k = ?k and e = ?e and cs = expired_history and g = "''G1''"]
  note b = keys_ignore_expiry [where pattern = "''exchange:sp?rts''" and c = expired_cache]
  note d = keys_ignore_expiry [where c = ?m]
  note a1 = a [THEN conjunct1, THEN mp, OF g(1)]
  note b1 = b [THEN conjunct1, THEN mp, OF g(2)]
  note a7 = a [THEN conjunct2, THEN conjunct2, THEN conjunct2, THEN conjunct2, THEN conjunct2,
      THEN conjunct2, THEN conjunct1, THEN mp, OF conjI, OF h l]
  note a8 = a [THEN conjunct2, THEN conjunct2, THEN conjunct2, THEN conjunct2, THEN conjunct2,
      THEN conjunct2, THEN conjunct2, THEN conjunct1]
  note d9 = d [THEN conjunct2, THEN conjunct2, THEN conjunct2, THEN conjunct2, THEN conjunct2,
      THEN conjunct2, THEN conjunct2, THEN conjunct2, THEN conjunct1]
  have w1: "mem_keys expired_cache ?p = [?k]"
    unfolding a1 [THEN conjunct1] s by (simp add: dot_matches_def)
  have w2: "mem_keys expired_cache ''exchange:sp?rts'' = [''exchange:sports'']"
    unfolding b1 [THEN conjunct1] s by (simp add: dot_matches_def)
  have w3: "''exchange:sports'' \<notin> set (mem_keys expired_cache ?p)"
    unfolding a1 [THEN conjunct2, THEN conjunct1] using n by simp
  note w4 = a1 [THEN conjunct2, THEN conjunct2]
  note w5 = a7 [THEN conjunct2, THEN conjunct1, THEN mp, OF q]
  note w6 = a7 [THEN conjunct2, THEN conjunct2, THEN conjunct1]
  note w7 = a7 [THEN conjunct2, THEN conjunct2, THEN conjunct2, THEN conjunct2, THEN conjunct1, THEN mp, OF g(1)]
  note w8 = a7 [THEN conjunct2, THEN conjunct2, THEN conjunct2, THEN conjunct2, THEN conjunct2, THEN mp, OF r]
  have "{g. list_all dot_matches g \<and> map_of (store expired_cache) (hotGmid g) \<noteq> None} = {''G1''}"
    by (auto simp: expired_cache_def cache_defs hot_defs split: if_splits)
  with a8 have w9: "gmid ` set (fst (getHotGmids expired_cache 100000)) = {''G1''}" by simp
  have "{m. list_all dot_matches m \<and> map_of (store ?m) (hotMatch m) \<noteq> None} = {''m7''}"
    by (auto simp: cache_defs hot_defs split: if_splits)
  with d9 have w10: "set (getHotMatchIds ?m) = {''m7''}" by simp
  from q have q1: "quiet ?k expired_cache expired_history" and q2: "unread ?k expired_history" by simp_all
  show ?thesis
    apply (intro conjI)
    apply (rule g(1))
    apply (rule s)
    apply (rule w1)
    apply (rule w2)
    apply (rule w3)
    apply (rule w4)
    apply (rule h)
    apply (rule q1)
    apply (rule q2)
    apply (rule w5)
    apply (rule w6)
    apply (rule w7)
    apply (rule w8)
    apply (rule w9)
    apply (rule w10)
    done
qed

subsection \<open>How long a hot record lives\<close>

text \<open>
  With the in-memory cache the hot record written by \<^verbatim>\<open>markGmidHot\<close> at \<open>t0\<close> is served
  by \<^verbatim>\<open>get\<close> up to \<open>staleUntil\<close>, which is \<open>oddsHotTtl \<times> STALE_MULTIPLIER\<close> seconds after
  \<open>t0\<close>: as long as the record is not written, deleted or flushed, \<^verbatim>\<open>getHotGmids\<close> lists
  the identifier with its sport id at every time up to then. At any later time \<^verbatim>\<open>get\<close>
  of the hot key returns \<^verbatim>\<open>null\<close>, and the enumeration that follows one made at such a time
  does not list the identifier.
\<close>

lemma hot_record_stale_window:
  assumes "quiet (hotGmid g) (markGmidHot c cfg g s t0) cs"
  shows "(before t cs \<and> t \<le> t0 + oddsHotTtl cfg * 1000 * STALE_MULTIPLIER \<and> list_all dot_matches g \<longrightarrow>
            \<lparr>gmid = g, sid = s\<rparr> \<in> set (fst (getHotGmids (mem_run (markGmidHot c cfg g s t0) cs) t))) \<and>
         (t0 + oddsHotTtl cfg * 1000 * STALE_MULTIPLIER < t \<longrightarrow>
            fst (mem_get (mem_run (markGmidHot c cfg g s t0) cs) (hotGmid g) t) = None \<and>
            (\<forall>x \<in> set (fst (getHotGmids (snd (getHotGmids (mem_run (markGmidHot c cfg g s t0) cs) t)) t')).
               gmid x \<noteq> g))"
proof -
  let ?e = "\<lparr>entry_value = HotRecord g s t0, freshUntil = t0 + oddsHotTtl cfg * 1000,
             staleUntil = t0 + oddsHotTtl cfg * 1000 * STALE_MULTIPLIER\<rparr>"
  let ?c0 = "markGmidHot c cfg g s t0"
  let ?c1 = "mem_run ?c0 cs"
  have e: "map_of (store ?c0) (hotGmid g) = Some ?e"
    unfolding markGmidHot_def by (rule store_after_set)
  have q: "quiet (hotGmid g) ?c0 cs" by (rule assms)
  have live: "\<lparr>gmid = g, sid = s\<rparr> \<in> set (fst (getHotGmids ?c1 t))"
    if "before t cs" and "t \<le> t0 + oddsHotTtl cfg * 1000 * STALE_MULTIPLIER" and "list_all dot_matches g"
  proof -
    from that(2) have le: "t \<le> staleUntil ?e" by simp
    from quiet_keeps_entry [OF q that(1) e le]
    have "map_of (store ?c1) (hotGmid g) = Some ?e" .
    from live_hot_listed [OF this le _ that(3)] show ?thesis by simp
  qed
  have gone: "fst (mem_get ?c1 (hotGmid g) t) = None \<and>
      (\<forall>x \<in> set (fst (getHotGmids (snd (getHotGmids ?c1 t)) t')). gmid x \<noteq> g)"
    if lt: "t0 + oddsHotTtl cfg * 1000 * STALE_MULTIPLIER < t"
  proof -
    from quiet_no_other_entry [OF q, of ?e] e
    have c1: "map_of (store ?c1) (hotGmid g) = None \<or> map_of (store ?c1) (hotGmid g) = Some ?e" by simp
    with lt have g: "fst (mem_get ?c1 (hotGmid g) t) = None" by (auto simp: mem_get_def)
    let ?c2 = "snd (getHotGmids ?c1 t)"
    have "hotGmid g \<notin> set (mem_keys ?c2 hotGmidPattern)"
    proof
      assume in2: "hotGmid g \<in> set (mem_keys ?c2 hotGmidPattern)"
      then have m: "regex_test hotGmidPattern (hotGmid g)" and s2: "map_of (store ?c2) (hotGmid g) \<noteq> None"
        by (simp_all add: mem_keys_iff in_store_keys_iff)
      from s2 have s1: "map_of (store ?c1) (hotGmid g) \<noteq> None"
        by (auto simp: getHotGmids_def store_hot_entries split: option.splits)
      with c1 have s1e: "map_of (store ?c1) (hotGmid g) = Some ?e" by simp
      with m have "hotGmid g \<in> set (mem_keys ?c1 hotGmidPattern)"
        by (simp add: mem_keys_iff in_store_keys)
      with s1e lt have "map_of (store ?c2) (hotGmid g) = None"
        by (simp add: getHotGmids_def store_hot_entries)
      with s2 show False by simp
    qed
    from unlisted_key_not_listed [OF this] g show ?thesis by simp
  qed
  from live gone show ?thesis by blast
qed

text \<open>
  C4. The claim does not hold of the code with the in-memory cache. An identifier is
  marked hot once, at time 0, with the default \<open>oddsHotTtl\<close> of 30 seconds, and never
  again. \<^verbatim>\<open>getHotGmids\<close> still lists it 31 seconds and 60 seconds after the mark, and the
  first enumeration made after the record has expired, here 100 seconds after the mark,
  lists it once more, with the sport id 4 of the fallback for a key without a record; only
  the enumeration after that one is empty.
\<close>

theorem hot_key_outlives_hot_ttl:
  "oddsHotTtl DEFAULT_POLL_CONFIG = 30 \<and>
   fst (getHotGmids (markGmidHot (mem_empty :: nat cached InMemoryCacheService) DEFAULT_POLL_CONFIG ''G1'' 1 0) 31000)
     = [\<lparr>gmid = ''G1'', sid = 1\<rparr>] \<and>
   fst (getHotGmids (markGmidHot (mem_empty :: nat cached InMemoryCacheService) DEFAULT_POLL_CONFIG ''G1'' 1 0) 60000)
     = [\<lparr>gmid = ''G1'', sid = 1\<rparr>] \<and>
   fst (getHotGmids (markGmidHot (mem_empty :: nat cached InMemoryCacheService) DEFAULT_POLL_CONFIG ''G1'' 1 0) 100000)
     = [\<lparr>gmid = ''G1'', sid = 4\<rparr>] \<and>
   fst (getHotGmids (snd (getHotGmids
      (markGmidHot (mem_empty :: nat cached InMemoryCacheService) DEFAULT_POLL_CONFIG ''G1'' 1 0) 100000)) 100001)
     = []"
  by (simp add: cache_defs hot_defs)

subsection \<open>Single flight\<close>

lemma co_inv_empty: "co_inv co_empty"
  by (simp add: co_inv_def co_empty_def)

lemma co_inv_coalesce: "co_inv s \<Longrightarrow> co_inv (snd (coalesce s k))"
proof (cases "map_of (inFlight s) k")
  case (Some p)
  assume "co_inv s"
  with Some show ?thesis by (simp add: coalesce_def)
next
  case None
  assume inv: "co_inv s"
  let ?p0 = "next_fetch s"
  let ?s' = "s\<lparr>inFlight := AList.update k ?p0 (inFlight s),
                fetchers := AList.update ?p0 k (fetchers s), next_fetch := Suc ?p0\<rparr>"
  from inv have d: "distinct (map fst (fetchers s))" "distinct (map fst (inFlight s))"
    and f: "\<And>p k'. map_of (fetchers s) p = Some k' \<Longrightarrow> map_of (inFlight s) k' = Some p \<and> p < ?p0"
    and g: "\<And>k' p. map_of (inFlight s) k' = Some p \<Longrightarrow> map_of (fetchers s) p = Some k'"
    unfolding co_inv_def by blast+
  have s': "snd (coalesce s k) = ?s'" using None by (simp add: coalesce_def Let_def)
  have 1: "distinct (map fst (fetchers ?s'))" "distinct (map fst (inFlight ?s'))"
    using d by (simp_all add: AList.distinct_update)
  have 2: "map_of (inFlight ?s') k' = Some p \<and> p < next_fetch ?s'"
    if "map_of (fetchers ?s') p = Some k'" for p k'
  proof (cases "p = ?p0")
    case True
    with that show ?thesis by (simp add: map_of_alist_update)
  next
    case False
    with that have old: "map_of (fetchers s) p = Some k'" by (simp add: map_of_alist_update)
    from f [OF old] None have "k' \<noteq> k" by auto
    with f [OF old] show ?thesis by (simp add: map_of_alist_update)
  qed
  have 3: "map_of (fetchers ?s') p = Some k'" if "map_of (inFlight ?s') k' = Some p" for p k'
  proof (cases "k' = k")
    case True
    with that show ?thesis by (simp add: map_of_alist_update)
  next
    case False
    with that have old: "map_of (inFlight s) k' = Some p" by (simp add: map_of_alist_update)
    from f [OF g [OF old]] have "p \<noteq> ?p0" by auto
    with g [OF old] show ?thesis by (simp add: map_of_alist_update)
  qed
  from 1 2 3 have "co_inv ?s'" unfolding co_inv_def by blast
  with s' show ?thesis by simp
qed

lemma co_inv_settle: "co_inv s \<Longrightarrow> co_inv (co_settle s p out)"
proof (cases "map_of (fetchers s) p")
  case None
  assume "co_inv s"
  with None show ?thesis by (simp add: co_settle_def)
next
  case (Some k)
  assume inv: "co_inv s"
  let ?s' = "s\<lparr>inFlight := AList.delete k (inFlight s), fetchers := AList.delete p (fetchers s),
                outcomes := AList.update p out (outcomes s)\<rparr>"
  from inv have d: "distinct (map fst (fetchers s))" "distinct (map fst (inFlight s))"
    and f: "\<And>p k'. map_of (fetchers s) p = Some k' \<Longrightarrow> map_of (inFlight s) k' = Some p \<and> p < next_fetch s"
    and g: "\<And>k' p. map_of (inFlight s) k' = Some p \<Longrightarrow> map_of (fetchers s) p = Some k'"
    unfolding co_inv_def by blast+
  have s': "co_settle s p out = ?s'" using Some by (simp add: co_settle_def)
  have 1: "distinct (map fst (fetchers ?s'))" "distinct (map fst (inFlight ?s'))"
    using d by (simp_all add: AList.distinct_delete)
  have 2: "map_of (inFlight ?s') k' = Some q \<and> q < next_fetch ?s'"
    if "map_of (fetchers ?s') q = Some k'" for q k'
  proof -
    from that have qp: "q \<noteq> p" and old: "map_of (fetchers s) q = Some k'"
      by (simp_all add: map_of_alist_delete split: if_splits)
    from f [OF old] f [OF Some] qp have "k' \<noteq> k" by auto
    with f [OF old] show ?thesis by (simp add: map_of_alist_delete)
  qed
  have 3: "map_of (fetchers ?s') q = Some k'" if "map_of (inFlight ?s') k' = Some q" for q k'
  proof -
    from that have kk: "k' \<noteq> k" and old: "map_of (inFlight s) k' = Some q"
      by (simp_all add: map_of_alist_delete split: if_splits)
    from g [OF old] Some kk have "q \<noteq> p" by auto
    with g [OF old] show ?thesis by (simp add: map_of_alist_delete)
  qed
  from 1 2 3 have "co_inv ?s'" unfolding co_inv_def by blast
  with s' show ?thesis by simp
qed

lemma co_inv_step: "co_inv s \<Longrightarrow> co_inv (co_step s e)"
  by (cases e) (simp_all add: co_inv_coalesce co_inv_settle)

lemma co_inv_foldl: "co_inv s \<Longrightarrow> co_inv (foldl co_step s es)"
  by (induction es arbitrary: s) (simp_all add: co_inv_step)

lemma co_inv_run: "co_inv (co_run es)"
  by (simp add: co_run_def co_inv_foldl co_inv_empty)

lemma filter_at_most_one:
  assumes "distinct (map fst al)" and "\<And>p v. (p, v) \<in> set al \<Longrightarrow> P v \<Longrightarrow> p = q"
  shows "length (filter (\<lambda>(p, v). P v) al) \<le> 1"
  using assms
proof (induction al)
  case Nil
  then show ?case by simp
next
  case (Cons a al)
  obtain p v where a: "a = (p, v)" by (cases a)
  from Cons.prems(1) have d: "distinct (map fst al)" by simp
  have r: "\<And>p v. (p, v) \<in> set al \<Longrightarrow> P v \<Longrightarrow> p = q" using Cons.prems(2) by (meson list.set_intros(2))
  show ?case
  proof (cases "P v")
    case False
    with Cons.IH [OF d r] a show ?thesis by simp
  next
    case True
    have "(p, v) \<in> set (a # al)" using a by simp
    from Cons.prems(2) [OF this True] have pq: "p = q" .
    have "\<forall>x \<in> set al. \<not> (case x of (p, v) \<Rightarrow> P v)"
    proof
      fix x assume x: "x \<in> set al"
      obtain p' v' where xp: "x = (p', v')" by (cases x)
      show "\<not> (case x of (p, v) \<Rightarrow> P v)"
      proof
        assume "case x of (p, v) \<Rightarrow> P v"
        with xp have "P v'" by simp
        with x xp r [of p' v'] have "p' = q" by simp
        with x xp have "q \<in> fst ` set al" by force
        with Cons.prems(1) a pq show False by simp
      qed
    qed
    then have "filter (\<lambda>(p, v). P v) al = []" by (simp add: filter_empty_conv)
    with a True show ?thesis by simp
  qed
qed

lemma co_inv_single_flight:
  assumes inv: "co_inv s"
  shows "length (executing s k) \<le> 1"
proof -
  from inv have d: "distinct (map fst (fetchers s))"
    and f: "\<And>p k'. map_of (fetchers s) p = Some k' \<Longrightarrow> map_of (inFlight s) k' = Some p"
    unfolding co_inv_def by blast+
  have "\<And>p k'. (p, k') \<in> set (fetchers s) \<Longrightarrow> k' = k \<Longrightarrow> p = the (map_of (inFlight s) k)"
  proof -
    fix p k' assume "(p, k') \<in> set (fetchers s)" and "k' = k"
    with d have "map_of (fetchers s) p = Some k" by simp
    from f [OF this] show "p = the (map_of (inFlight s) k)" by simp
  qed
  from filter_at_most_one [where P = "\<lambda>k'. k' = k", OF d this] show ?thesis
    by (simp add: executing_def)
qed

lemma executing_running:
  assumes inv: "co_inv s" and p: "map_of (fetchers s) p = Some k"
  shows "executing s k = [p]"
proof -
  from p have "(p, k) \<in> set (fetchers s)" by (rule map_of_SomeD)
  then have "p \<in> set (executing s k)" by (force simp: executing_def)
  moreover have "length (executing s k) \<le> 1" by (rule co_inv_single_flight [OF inv])
  ultimately show ?thesis by (cases "executing s k") auto
qed

lemma executing_idle:
  assumes inv: "co_inv s" and n: "map_of (inFlight s) k = None"
  shows "executing s k = []"
proof (rule ccontr)
  assume "executing s k \<noteq> []"
  then have "filter (\<lambda>(p, k'). k' = k) (fetchers s) \<noteq> []" by (simp add: executing_def)
  then obtain x where x: "x \<in> set (fetchers s)" "case x of (p, k') \<Rightarrow> k' = k"
    unfolding filter_empty_conv by blast
  then obtain p where "(p, k) \<in> set (fetchers s)" by (cases x) auto
  moreover from inv have "distinct (map fst (fetchers s))" by (simp add: co_inv_def)
  ultimately have "map_of (fetchers s) p = Some k" by simp
  with inv have "map_of (inFlight s) k = Some p" unfolding co_inv_def by blast
  with n show False by simp
qed

lemma coalesce_originator:
  assumes inv: "co_inv s" and n: "map_of (inFlight s) k = None"
  shows "fst (coalesce s k) = next_fetch s"
    and "map_of (fetchers (snd (coalesce s k))) (next_fetch s) = Some k"
    and "executing (snd (coalesce s k)) k = [next_fetch s]"
proof -
  show 1: "fst (coalesce s k) = next_fetch s" using n by (simp add: coalesce_def Let_def)
  show 2: "map_of (fetchers (snd (coalesce s k))) (next_fetch s) = Some k"
    using n by (simp add: coalesce_def Let_def map_of_alist_update)
  from executing_running [OF co_inv_coalesce [OF inv] 2]
  show "executing (snd (coalesce s k)) k = [next_fetch s]" .
qed

lemma pending_stays:
  "co_inv s \<Longrightarrow> map_of (fetchers s) p = Some k \<Longrightarrow> list_all (\<lambda>e. \<not> settles p e) es \<Longrightarrow>
   map_of (fetchers (foldl co_step s es)) p = Some k"
proof (induction es arbitrary: s)
  case Nil
  then show ?case by simp
next
  case (Cons e es)
  from Cons.prems(1) have lt: "p < next_fetch s"
    using Cons.prems(2) unfolding co_inv_def by blast
  have "map_of (fetchers (co_step s e)) p = Some k"
  proof (cases e)
    case (Coalesce k')
    with Cons.prems(2) lt show ?thesis
      by (auto simp: coalesce_def Let_def map_of_alist_update split: option.splits)
  next
    case (Settled p' out)
    with Cons.prems(3) have "p' \<noteq> p" by simp
    with Settled Cons.prems(2) show ?thesis
      by (auto simp: co_settle_def map_of_alist_delete split: option.splits)
  qed
  with Cons.IH [OF co_inv_step [OF Cons.prems(1)], of e] Cons.prems(3) show ?case by simp
qed

lemma co_run_append: "co_run (es @ e # es2) = foldl co_step (co_step (co_run es) e) es2"
  by (simp add: co_run_def)

lemma coalesce_joiner:
  assumes n: "map_of (inFlight (co_run es)) k = None"
    and q: "list_all (\<lambda>e. \<not> settles (next_fetch (co_run es)) e) es2"
  shows "coalesce (co_run (es @ Coalesce k # es2)) k = (next_fetch (co_run es), co_run (es @ Coalesce k # es2))"
proof -
  let ?s = "co_run es"
  let ?s1 = "snd (coalesce ?s k)"
  let ?s2 = "co_run (es @ Coalesce k # es2)"
  have inv1: "co_inv ?s1" by (rule co_inv_coalesce [OF co_inv_run])
  have "map_of (fetchers ?s1) (next_fetch ?s) = Some k"
    by (rule coalesce_originator(2) [OF co_inv_run n])
  from pending_stays [OF inv1 this q]
  have "map_of (fetchers ?s2) (next_fetch ?s) = Some k" by (simp add: co_run_append)
  moreover have "co_inv ?s2" by (rule co_inv_run)
  ultimately have "map_of (inFlight ?s2) k = Some (next_fetch ?s)" unfolding co_inv_def by blast
  then show ?thesis by (simp add: coalesce_def)
qed

lemma co_settle_frees:
  assumes inv: "co_inv s" and p: "map_of (fetchers s) p = Some k"
  shows "map_of (outcomes (co_settle s p out)) p = Some out"
    and "map_of (inFlight (co_settle s p out)) k = None"
    and "executing (co_settle s p out) k = []"
    and "fst (coalesce (co_settle s p out) k) = next_fetch s"
    and "executing (snd (coalesce (co_settle s p out) k)) k = [next_fetch s]"
proof -
  show "map_of (outcomes (co_settle s p out)) p = Some out"
    using p by (simp add: co_settle_def map_of_alist_update)
  show n: "map_of (inFlight (co_settle s p out)) k = None"
    using p by (simp add: co_settle_def map_of_alist_delete)
  have inv': "co_inv (co_settle s p out)" by (rule co_inv_settle [OF inv])
  have nx: "next_fetch (co_settle s p out) = next_fetch s"
    using p by (simp add: co_settle_def)
  show "executing (co_settle s p out) k = []" by (rule executing_idle [OF inv' n])
  from coalesce_originator(1) [OF inv' n] nx
  show "fst (coalesce (co_settle s p out) k) = next_fetch s" by simp
  from coalesce_originator(3) [OF inv' n] nx
  show "executing (snd (coalesce (co_settle s p out) k)) k = [next_fetch s]" by simp
qed

text \<open>
  C1. In every state the coalescer can reach, at most one fetcher is executing for a key.
  A call for a key with no slot starts the one fetcher and gets its promise; every call
  for the key made before that promise settles gets the same promise and starts nothing,
  so it settles for the joiner as for the originator; and when the fetcher settles, with
  a value or a rejection, the slot is deleted and the next call starts a fresh fetcher.
\<close>

theorem single_flight:
  "length (executing (co_run es) k) \<le> 1 \<and>
   (map_of (inFlight (co_run es)) k = None \<longrightarrow>
      executing (co_run es) k = [] \<and>
      fst (coalesce (co_run es) k) = next_fetch (co_run es) \<and>
      executing (snd (coalesce (co_run es) k)) k = [next_fetch (co_run es)]) \<and>
   (map_of (inFlight (co_run es)) k = None \<and>
    list_all (\<lambda>e. \<not> settles (next_fetch (co_run es)) e) es2 \<longrightarrow>
      coalesce (co_run (es @ Coalesce k # es2)) k =
        (next_fetch (co_run es), co_run (es @ Coalesce k # es2))) \<and>
   (map_of (fetchers (co_run es)) p = Some k \<longrightarrow>
      map_of (outcomes (co_settle (co_run es) p out)) p = Some out \<and>
      map_of (inFlight (co_settle (co_run es) p out)) k = None \<and>
      executing (co_settle (co_run es) p out) k = [] \<and>
      fst (coalesce (co_settle (co_run es) p out) k) = next_fetch (co_run es) \<and>
      executing (snd (coalesce (co_settle (co_run es) p out) k)) k = [next_fetch (co_run es)])"
proof -
  have inv: "co_inv (co_run es)" by (rule co_inv_run)
  have 1: "length (executing (co_run es) k) \<le> 1" by (rule co_inv_single_flight [OF inv])
  from executing_idle [OF inv] coalesce_originator(1,3) [OF inv]
  have 2: "map_of (inFlight (co_run es)) k = None \<longrightarrow>
      executing (co_run es) k = [] \<and>
      fst (coalesce (co_run es) k) = next_fetch (co_run es) \<and>
      executing (snd (coalesce (co_run es) k)) k = [next_fetch (co_run es)]" by blast
  from coalesce_joiner
  have 3: "map_of (inFlight (co_run es)) k = None \<and>
    list_all (\<lambda>e. \<not> settles (next_fetch (co_run es)) e) es2 \<longrightarrow>
      coalesce (co_run (es @ Coalesce k # es2)) k =
        (next_fetch (co_run es), co_run (es @ Coalesce k # es2))" by blast
  from co_settle_frees [OF inv]
  have 4: "map_of (fetchers (co_run es)) p = Some k \<longrightarrow>
      map_of (outcomes (co_settle (co_run es) p out)) p = Some out \<and>
      map_of (inFlight (co_settle (co_run es) p out)) k = None \<and>
      executing (co_settle (co_run es) p out) k = [] \<and>
      fst (coalesce (co_settle (co_run es) p out) k) = next_fetch (co_run es) \<and>
      executing (snd (coalesce (co_settle (co_run es) p out) k)) k = [next_fetch (co_run es)]" by blast
  from 1 2 3 4 show ?thesis by blast
qed

lemmas co_defs = co_run_def co_empty_def coalesce_def co_settle_def executing_def co_history_def

theorem single_flight_witness:
  "length (executing (co_run co_history) ''odds:G1'') \<le> 1 \<and>
   map_of (inFlight (co_run co_history)) ''odds:G2'' = None \<and>
   executing (co_run co_history) ''odds:G2'' = [] \<and>
   fst (coalesce (co_run co_history) ''odds:G2'') = 2 \<and>
   executing (snd (coalesce (co_run co_history) ''odds:G2'')) ''odds:G2'' = [2] \<and>
   coalesce (co_run (co_history @ Coalesce ''odds:G2'' # [Coalesce ''odds:G1'', Settled 0 (Resolved 5)])) ''odds:G2'' =
     (2, co_run (co_history @ Coalesce ''odds:G2'' # [Coalesce ''odds:G1'', Settled 0 (Resolved 5)])) \<and>
   map_of (fetchers (co_run co_history)) 0 = Some ''odds:G1'' \<and>
   map_of (outcomes (co_settle (co_run co_history) 0 (Rejected ''boom''))) 0 = Some (Rejected ''boom'') \<and>
   map_of (inFlight (co_settle (co_run co_history) 0 (Rejected ''boom''))) ''odds:G1'' = None \<and>
   executing (snd (coalesce (co_settle (co_run co_history) 0 (Rejected ''boom'')) ''odds:G1'')) ''odds:G1'' = [2]"
proof -
  have h1: "map_of (inFlight (co_run co_history)) ''odds:G2'' = None"
    by (simp add: co_defs Let_def)
  have h2: "next_fetch (co_run co_history) = 2"
    by (simp add: co_defs Let_def)
  have h3: "list_all (\<lambda>e. \<not> settles (next_fetch (co_run co_history)) e)
              [Coalesce ''odds:G1'', Settled 0 (Resolved (5::nat))]"
    by (simp add: h2)
  have h4: "map_of (fetchers (co_run co_history)) 0 = Some ''odds:G1''"
    by (simp add: co_defs Let_def)
  from single_flight [of co_history "''odds:G1''" "[]" 0 "Rejected ''boom''"]
    single_flight [of co_history "''odds:G2''" "[Coalesce ''odds:G1'', Settled 0 (Resolved 5)]" 0 "Rejected ''boom''"]
    h1 h2 h3 h4
  show ?thesis by simp
qed

subsection \<open>Get-or-set\<close>

lemma getOrSet_fresh:
  assumes "map_of (store s) k = Some e" and "now \<le> freshUntil e"
  shows "mem_getOrSet s k ttl now = (Served (entry_value e), s)"
  using assms by (simp add: mem_getOrSet_def)

lemma getOrSet_stale:
  assumes "map_of (store s) k = Some e" and "freshUntil e < now" and "now \<le> staleUntil e"
  shows "mem_getOrSet s k ttl now = (Served (entry_value e), snd (mem_coalesce s k ttl))"
  using assms by (simp add: mem_getOrSet_def mem_refreshInBackground_def)

lemma getOrSet_miss:
  assumes "miss s k now"
  shows "mem_getOrSet s k ttl now = (Awaits (fst (mem_coalesce s k ttl)), snd (mem_coalesce s k ttl))"
  using assms by (auto simp: mem_getOrSet_def miss_def split_def split: option.splits)

lemma coalesce_join: "map_of (inflight s) k = Some p \<Longrightarrow> mem_coalesce s k ttl = (p, s)"
  by (simp add: mem_coalesce_def)

lemma coalesce_start:
  assumes "map_of (inflight s) k = None"
  shows "fst (mem_coalesce s k ttl) = next_promise s"
    and "factories (snd (mem_coalesce s k ttl)) = AList.update (next_promise s) (k, ttl) (factories s)"
    and "map_of (inflight (snd (mem_coalesce s k ttl))) k = Some (next_promise s)"
    and "map_of (factories (snd (mem_coalesce s k ttl))) (next_promise s) = Some (k, ttl)"
  using assms by (simp_all add: mem_coalesce_def Let_def map_of_alist_update)

lemma coalesce_inflight: "map_of (inflight (snd (mem_coalesce s k ttl))) k = Some (fst (mem_coalesce s k ttl))"
  by (cases "map_of (inflight s) k") (simp_all add: mem_coalesce_def Let_def map_of_alist_update)

lemma coalesce_twice:
  "mem_coalesce (snd (mem_coalesce s k ttl)) k ttl' = (fst (mem_coalesce s k ttl), snd (mem_coalesce s k ttl))"
  by (rule coalesce_join) (rule coalesce_inflight)

lemma settle_rejected_store: "store (mem_settle s p (Rejected err) t) = store s"
  by (simp add: mem_settle_def split: option.splits)

lemma settle_running:
  assumes "map_of (factories s) p = Some (k, ttl)"
  shows "reply_result (mem_settle s p out t) (Awaits p) = Some out"
    and "map_of (inflight (mem_settle s p out t)) k = None"
    and "map_of (store (mem_settle s p (Resolved v) t)) k =
           Some \<lparr>entry_value = v, freshUntil = t + ttl * 1000, staleUntil = t + ttl * 1000 * STALE_MULTIPLIER\<rparr>"
  using assms
  by (cases out; simp add: mem_settle_def reply_result_def map_of_alist_update map_of_alist_delete
      mem_set_def Let_def)+

lemma miss_coalesce: "miss (snd (mem_coalesce s k ttl)) k' now = miss s k' now"
  by (simp add: miss_def store_mem_coalesce)

text \<open>
  C2. \<^verbatim>\<open>getOrSet(key, factory, ttl)\<close> of the in-memory cache at time \<open>now\<close>:
  \<^enum> an entry with \<open>now \<le> freshUntil\<close> is served and nothing else happens (the state is
    unchanged, so no factory is called);
  \<^enum> otherwise an entry with \<open>now \<le> staleUntil\<close> is served at once, and a refresh goes
    through \<^verbatim>\<open>coalesce\<close>: it starts one factory when none is in flight for the key and
    none otherwise, a second such caller starts nothing, and a rejected refresh leaves the
    store as it was and frees the slot;
  \<^enum> otherwise the caller waits for the coalesced promise: a second caller gets the same
    promise and starts nothing; when the factory this call started resolves at time \<open>t\<close>,
    the value is stored with this call's TTL read at \<open>t\<close>, and every waiter of the promise
    gets its outcome, a rejection included, which then leaves the store as it was.
\<close>

theorem getOrSet_three_cases:
  "(map_of (store s) k = Some e \<and> now \<le> freshUntil e \<longrightarrow>
      mem_getOrSet s k ttl now = (Served (entry_value e), s)) \<and>
   (map_of (store s) k = Some e \<and> freshUntil e < now \<and> now \<le> staleUntil e \<longrightarrow>
      mem_getOrSet s k ttl now = (Served (entry_value e), snd (mem_coalesce s k ttl)) \<and>
      store (snd (mem_getOrSet s k ttl now)) = store s \<and>
      (map_of (inflight s) k = None \<longrightarrow>
         factories (snd (mem_getOrSet s k ttl now)) = AList.update (next_promise s) (k, ttl) (factories s) \<and>
         map_of (inflight (mem_settle (snd (mem_getOrSet s k ttl now)) (next_promise s) (Rejected err) t)) k = None) \<and>
      (map_of (inflight s) k \<noteq> None \<longrightarrow> snd (mem_getOrSet s k ttl now) = s) \<and>
      (freshUntil e < now' \<and> now' \<le> staleUntil e \<longrightarrow>
         mem_getOrSet (snd (mem_getOrSet s k ttl now)) k ttl' now' =
           (Served (entry_value e), snd (mem_getOrSet s k ttl now))) \<and>
      store (mem_settle (snd (mem_getOrSet s k ttl now)) p (Rejected err) t) = store s) \<and>
   (miss s k now \<longrightarrow>
      mem_getOrSet s k ttl now = (Awaits (fst (mem_coalesce s k ttl)), snd (mem_coalesce s k ttl)) \<and>
      (miss s k now' \<longrightarrow>
         mem_getOrSet (snd (mem_getOrSet s k ttl now)) k ttl' now' =
           (fst (mem_getOrSet s k ttl now), snd (mem_getOrSet s k ttl now))) \<and>
      (map_of (inflight s) k = None \<longrightarrow>
         fst (mem_getOrSet s k ttl now) = Awaits (next_promise s) \<and>
         factories (snd (mem_getOrSet s k ttl now)) = AList.update (next_promise s) (k, ttl) (factories s) \<and>
         reply_result (mem_settle (snd (mem_getOrSet s k ttl now)) (next_promise s) out t)
           (Awaits (next_promise s)) = Some out \<and>
         map_of (inflight (mem_settle (snd (mem_getOrSet s k ttl now)) (next_promise s) out t)) k = None \<and>
         map_of (store (mem_settle (snd (mem_getOrSet s k ttl now)) (next_promise s) (Resolved v) t)) k =
           Some \<lparr>entry_value = v, freshUntil = t + ttl * 1000,
                 staleUntil = t + ttl * 1000 * STALE_MULTIPLIER\<rparr> \<and>
         store (mem_settle (snd (mem_getOrSet s k ttl now)) (next_promise s) (Rejected err) t) = store s))"
proof -
  let ?s1 = "snd (mem_coalesce s k ttl)"
  have c1: "map_of (store s) k = Some e \<and> now \<le> freshUntil e \<longrightarrow>
      mem_getOrSet s k ttl now = (Served (entry_value e), s)"
    by (simp add: getOrSet_fresh)
  have c2: "mem_getOrSet s k ttl now = (Served (entry_value e), ?s1) \<and>
      store (snd (mem_getOrSet s k ttl now)) = store s \<and>
      (map_of (inflight s) k = None \<longrightarrow>
         factories (snd (mem_getOrSet s k ttl now)) = AList.update (next_promise s) (k, ttl) (factories s) \<and>
         map_of (inflight (mem_settle (snd (mem_getOrSet s k ttl now)) (next_promise s) (Rejected err) t)) k = None) \<and>
      (map_of (inflight s) k \<noteq> None \<longrightarrow> snd (mem_getOrSet s k ttl now) = s) \<and>
      (freshUntil e < now' \<and> now' \<le> staleUntil e \<longrightarrow>
         mem_getOrSet (snd (mem_getOrSet s k ttl now)) k ttl' now' =
           (Served (entry_value e), snd (mem_getOrSet s k ttl now))) \<and>
      store (mem_settle (snd (mem_getOrSet s k ttl now)) p (Rejected err) t) = store s"
    if h: "map_of (store s) k = Some e" "freshUntil e < now" "now \<le> staleUntil e"
  proof -
    have g: "mem_getOrSet s k ttl now = (Served (entry_value e), ?s1)"
      by (rule getOrSet_stale [OF h])
    have e1: "map_of (store ?s1) k = Some e" using h(1) by (simp add: store_mem_coalesce)
    have a: "store ?s1 = store s" by (rule store_mem_coalesce)
    have b: "factories ?s1 = AList.update (next_promise s) (k, ttl) (factories s) \<and>
             map_of (inflight (mem_settle ?s1 (next_promise s) (Rejected err) t)) k = None"
      if "map_of (inflight s) k = None"
      using coalesce_start(2) [OF that] settle_running(2) [OF coalesce_start(4) [OF that]] by simp
    have c: "?s1 = s" if "map_of (inflight s) k \<noteq> None"
      using that by (auto simp: mem_coalesce_def)
    have d: "mem_getOrSet ?s1 k ttl' now' = (Served (entry_value e), ?s1)"
      if "freshUntil e < now'" "now' \<le> staleUntil e"
      using getOrSet_stale [OF e1 that] coalesce_twice [of s k ttl ttl'] by simp
    have f: "store (mem_settle ?s1 p (Rejected err) t) = store s"
      by (simp add: settle_rejected_store a)
    from g a b c d f show ?thesis by simp
  qed
  have c3: "mem_getOrSet s k ttl now = (Awaits (fst (mem_coalesce s k ttl)), ?s1) \<and>
      (miss s k now' \<longrightarrow>
         mem_getOrSet (snd (mem_getOrSet s k ttl now)) k ttl' now' =
           (fst (mem_getOrSet s k ttl now), snd (mem_getOrSet s k ttl now))) \<and>
      (map_of (inflight s) k = None \<longrightarrow>
         fst (mem_getOrSet s k ttl now) = Awaits (next_promise s) \<and>
         factories (snd (mem_getOrSet s k ttl now)) = AList.update (next_promise s) (k, ttl) (factories s) \<and>
         reply_result (mem_settle (snd (mem_getOrSet s k ttl now)) (next_promise s) out t)
           (Awaits (next_promise s)) = Some out \<and>
         map_of (inflight (mem_settle (snd (mem_getOrSet s k ttl now)) (next_promise s) out t)) k = None \<and>
         map_of (store (mem_settle (snd (mem_getOrSet s k ttl now)) (next_promise s) (Resolved v) t)) k =
           Some \<lparr>entry_value = v, freshUntil = t + ttl * 1000,
                 staleUntil = t + ttl * 1000 * STALE_MULTIPLIER\<rparr> \<and>
         store (mem_settle (snd (mem_getOrSet s k ttl now)) (next_promise s) (Rejected err) t) = store s)"
    if h: "miss s k now"
  proof -
    have g: "mem_getOrSet s k ttl now = (Awaits (fst (mem_coalesce s k ttl)), ?s1)"
      by (rule getOrSet_miss [OF h])
    have j: "mem_getOrSet ?s1 k ttl' now' = (Awaits (fst (mem_coalesce s k ttl)), ?s1)"
      if "miss s k now'"
    proof -
      from that have "miss ?s1 k now'" by (simp add: miss_coalesce)
      from getOrSet_miss [OF this] coalesce_twice [of s k ttl ttl'] show ?thesis by simp
    qed
    have o: "fst (mem_coalesce s k ttl) = next_promise s \<and>
         factories ?s1 = AList.update (next_promise s) (k, ttl) (factories s) \<and>
         reply_result (mem_settle ?s1 (next_promise s) out t) (Awaits (next_promise s)) = Some out \<and>
         map_of (inflight (mem_settle ?s1 (next_promise s) out t)) k = None \<and>
         map_of (store (mem_settle ?s1 (next_promise s) (Resolved v) t)) k =
           Some \<lparr>entry_value = v, freshUntil = t + ttl * 1000,
                 staleUntil = t + ttl * 1000 * STALE_MULTIPLIER\<rparr> \<and>
         store (mem_settle ?s1 (next_promise s) (Rejected err) t) = store s"
      if n: "map_of (inflight s) k = None"
      using coalesce_start(1,2) [OF n] settle_running [OF coalesce_start(4) [OF n]]
        settle_rejected_store [of ?s1] store_mem_coalesce [of s k ttl]
      by simp
    from g j o show ?thesis by simp
  qed
  from c1 c2 c3 show ?thesis by blast
qed

lemmas swr_defs = swr_cache_def miss_def reply_result_def

theorem getOrSet_three_cases_witness:
  "map_of (store swr_cache) ''exchange:matches:4'' =
     Some \<lparr>entry_value = 11, freshUntil = 120000, staleUntil = 240000\<rparr> \<and>
   mem_getOrSet swr_cache ''exchange:matches:4'' 120 120000 = (Served 11, swr_cache) \<and>
   fst (mem_getOrSet swr_cache ''exchange:matches:4'' 120 121000) = Served 11 \<and>
   factories (snd (mem_getOrSet swr_cache ''exchange:matches:4'' 120 121000)) =
     [(0, ''exchange:matches:4'', 120)] \<and>
   mem_getOrSet (snd (mem_getOrSet swr_cache ''exchange:matches:4'' 120 121000)) ''exchange:matches:4'' 60 121010 =
     (Served 11, snd (mem_getOrSet swr_cache ''exchange:matches:4'' 120 121000)) \<and>
   store (mem_settle (snd (mem_getOrSet swr_cache ''exchange:matches:4'' 120 121000)) 0 (Rejected ''timeout'') 122000) =
     store swr_cache \<and>
   miss swr_cache ''exchange:matches:4'' 240001 \<and>
   fst (mem_getOrSet swr_cache ''exchange:matches:4'' 120 240001) = Awaits 0 \<and>
   mem_getOrSet (snd (mem_getOrSet swr_cache ''exchange:matches:4'' 120 240001)) ''exchange:matches:4'' 60 240002 =
     (Awaits 0, snd (mem_getOrSet swr_cache ''exchange:matches:4'' 120 240001)) \<and>
   reply_result (mem_settle (snd (mem_getOrSet swr_cache ''exchange:matches:4'' 120 240001)) 0 (Rejected ''timeout'') 241000)
     (Awaits 0) = Some (Rejected ''timeout'') \<and>
   map_of (store (mem_settle (snd (mem_getOrSet swr_cache ''exchange:matches:4'' 120 240001)) 0 (Resolved 12) 241000))
     ''exchange:matches:4'' = Some \<lparr>entry_value = 12, freshUntil = 361000, staleUntil = 481000\<rparr>"
proof -
  let ?k = "''exchange:matches:4''"
  let ?e = "\<lparr>entry_value = 11::nat, freshUntil = 120000, staleUntil = 240000\<rparr>"
  let ?s2 = "snd (mem_getOrSet swr_cache ?k 120 121000)"
  let ?s3 = "snd (mem_getOrSet swr_cache ?k 120 240001)"
  have e: "map_of (store swr_cache) ?k = Some ?e"
    by (simp add: swr_defs cache_defs)
  have n: "map_of (inflight swr_cache) ?k = None"
    and n0: "next_promise swr_cache = 0" "factories swr_cache = []"
    by (simp_all add: swr_defs cache_defs)
  have m: "miss swr_cache ?k 240001" "miss swr_cache ?k 240002"
    by (simp_all add: swr_defs cache_defs)
  have f: "(120000::int) \<le> freshUntil ?e" "freshUntil ?e < (121000::int)" "(121000::int) \<le> staleUntil ?e"
    "freshUntil ?e < (121010::int)" "(121010::int) \<le> staleUntil ?e"
    by simp_all
  note fresh = getOrSet_three_cases [of swr_cache ?k ?e 120000 120]
  note stale = getOrSet_three_cases [of swr_cache ?k ?e 121000 120 "''timeout''" 122000 121010 60 0]
  note cold = getOrSet_three_cases [of swr_cache ?k ?e 240001 120 "''timeout''" 241000 240002 60 0
      "Rejected ''timeout''" 12]
  from fresh e f have w1: "mem_getOrSet swr_cache ?k 120 120000 = (Served 11, swr_cache)" by simp
  from stale e f have "mem_getOrSet swr_cache ?k 120 121000 =
      (Served (entry_value ?e), snd (mem_coalesce swr_cache ?k 120))" by blast
  then have w2: "fst (mem_getOrSet swr_cache ?k 120 121000) = Served 11" by simp
  from stale e f n have "factories ?s2 = AList.update (next_promise swr_cache) (?k, 120) (factories swr_cache)"
    by blast
  with n0 have w3: "factories ?s2 = [(0, ?k, 120)]" by simp
  from stale e f have "mem_getOrSet ?s2 ?k 60 121010 = (Served (entry_value ?e), ?s2)" by blast
  then have w4: "mem_getOrSet ?s2 ?k 60 121010 = (Served 11, ?s2)" by simp
  from stale e f have w5: "store (mem_settle ?s2 0 (Rejected ''timeout'') 122000) = store swr_cache"
    by blast
  from cold m n have "fst (mem_getOrSet swr_cache ?k 120 240001) = Awaits (next_promise swr_cache)"
    by blast
  with n0 have w6: "fst (mem_getOrSet swr_cache ?k 120 240001) = Awaits 0" by simp
  from cold m have "mem_getOrSet ?s3 ?k 60 240002 = (fst (mem_getOrSet swr_cache ?k 120 240001), ?s3)"
    by blast
  with w6 have w7: "mem_getOrSet ?s3 ?k 60 240002 = (Awaits 0, ?s3)" by simp
  from cold m n have "reply_result (mem_settle ?s3 (next_promise swr_cache) (Rejected ''timeout'') 241000)
      (Awaits (next_promise swr_cache)) = Some (Rejected ''timeout'')" by blast
  with n0 have w8: "reply_result (mem_settle ?s3 0 (Rejected ''timeout'') 241000) (Awaits 0) =
      Some (Rejected ''timeout'')" by simp
  from cold m n have "map_of (store (mem_settle ?s3 (next_promise swr_cache) (Resolved 12) 241000)) ?k =
      Some \<lparr>entry_value = 12, freshUntil = 241000 + 120 * 1000,
            staleUntil = 241000 + 120 * 1000 * STALE_MULTIPLIER\<rparr>" by blast
  with n0 have w9: "map_of (store (mem_settle ?s3 0 (Resolved 12) 241000)) ?k =
      Some \<lparr>entry_value = 12, freshUntil = 361000, staleUntil = 481000\<rparr>"
    by (simp add: STALE_MULTIPLIER_def)
  from e w1 w2 w3 w4 w5 m(1) w6 w7 w8 w9 show ?thesis by blast
qed

subsection \<open>Single flight in the in-memory cache\<close>

lemma mem_inv_coalesce: "mem_inv s \<Longrightarrow> mem_inv (snd (mem_coalesce s k ttl))"
proof (cases "map_of (inflight s) k")
  case (Some p)
  assume "mem_inv s"
  with Some show ?thesis by (simp add: mem_coalesce_def)
next
  case None
  assume inv: "mem_inv s"
  let ?p0 = "next_promise s"
  let ?s' = "s\<lparr>inflight := AList.update k ?p0 (inflight s),
                factories := AList.update ?p0 (k, ttl) (factories s), next_promise := Suc ?p0\<rparr>"
  from inv have d: "distinct (map fst (factories s))"
    and f: "\<And>p k' t. map_of (factories s) p = Some (k', t) \<Longrightarrow> map_of (inflight s) k' = Some p \<and> p < ?p0"
    unfolding mem_inv_def by blast+
  have s': "snd (mem_coalesce s k ttl) = ?s'" using None by (simp add: mem_coalesce_def Let_def)
  have 1: "distinct (map fst (factories ?s'))"
    using d by (simp add: AList.distinct_update)
  have 2: "map_of (inflight ?s') k' = Some p \<and> p < next_promise ?s'"
    if "map_of (factories ?s') p = Some (k', t)" for p k' t
  proof (cases "p = ?p0")
    case True
    with that show ?thesis by (simp add: map_of_alist_update)
  next
    case False
    with that have old: "map_of (factories s) p = Some (k', t)" by (simp add: map_of_alist_update)
    from f [OF old] None have "k' \<noteq> k" by auto
    with f [OF old] show ?thesis by (simp add: map_of_alist_update)
  qed
  from 1 2 have "mem_inv ?s'" unfolding mem_inv_def by blast
  with s' show ?thesis by simp
qed

lemma mem_inv_settle: "mem_inv s \<Longrightarrow> mem_inv (mem_settle s p out now)"
proof (cases "map_of (factories s) p")
  case None
  assume "mem_inv s"
  with None show ?thesis by (simp add: mem_settle_def)
next
  case (Some a)
  assume inv: "mem_inv s"
  obtain k ttl where a: "a = (k, ttl)" by (cases a)
  let ?s1 = "case out of Resolved v \<Rightarrow> mem_set s k v ttl now | Rejected e \<Rightarrow> s"
  let ?s' = "?s1\<lparr>inflight := AList.delete k (inflight ?s1), factories := AList.delete p (factories ?s1),
                  settled := AList.update p out (settled ?s1)\<rparr>"
  have same: "inflight ?s1 = inflight s" "factories ?s1 = factories s" "next_promise ?s1 = next_promise s"
    by (cases out; simp add: mem_set_def Let_def)+
  from inv have d: "distinct (map fst (factories s))"
    and f: "\<And>p k' t. map_of (factories s) p = Some (k', t) \<Longrightarrow>
              map_of (inflight s) k' = Some p \<and> p < next_promise s"
    unfolding mem_inv_def by blast+
  have s': "mem_settle s p out now = ?s'" using Some a by (simp add: mem_settle_def Let_def)
  have 1: "distinct (map fst (factories ?s'))"
    using d same by (simp add: AList.distinct_delete)
  have 2: "map_of (inflight ?s') k' = Some q \<and> q < next_promise ?s'"
    if "map_of (factories ?s') q = Some (k', t)" for q k' t
  proof -
    from that same have qp: "q \<noteq> p" and old: "map_of (factories s) q = Some (k', t)"
      by (simp_all add: map_of_alist_delete split: if_splits)
    from Some a have "map_of (factories s) p = Some (k, ttl)" by simp
    from f [OF old] f [OF this] qp have "k' \<noteq> k" by auto
    with f [OF old] same show ?thesis by (simp add: map_of_alist_delete)
  qed
  from 1 2 have "mem_inv ?s'" unfolding mem_inv_def by blast
  with s' show ?thesis by simp
qed

lemma mem_inv_call: "mem_inv s \<Longrightarrow> \<not> clears_slots c \<Longrightarrow> mem_inv (mem_call s c now)"
proof (cases c)
  case (Get k)
  assume "mem_inv s"
  with Get show ?thesis by (auto simp: mem_inv_def mem_get_def split: option.splits)
next
  case (Set k v ttl)
  assume "mem_inv s"
  with Set show ?thesis by (simp add: mem_inv_def mem_set_def Let_def)
next
  case (Exists k)
  assume "mem_inv s"
  with Exists show ?thesis by (auto simp: mem_inv_def snd_mem_exists mem_get_def split: option.splits)
next
  case (Keys pat)
  assume "mem_inv s"
  with Keys show ?thesis by simp
next
  case (GetOrSet k ttl)
  assume inv: "mem_inv s"
  have "snd (mem_getOrSet s k ttl now) = s \<or> snd (mem_getOrSet s k ttl now) = snd (mem_coalesce s k ttl)"
    by (simp add: mem_getOrSet_def mem_refreshInBackground_def Let_def split_def)
  with inv mem_inv_coalesce [OF inv, of k ttl] GetOrSet show ?thesis by auto
next
  case (Settle p out)
  assume "mem_inv s"
  with Settle show ?thesis by (simp add: mem_inv_settle)
qed simp_all

lemma mem_inv_run: "mem_inv s \<Longrightarrow> keeps_slots cs \<Longrightarrow> mem_inv (mem_run s cs)"
proof (induction cs arbitrary: s)
  case Nil
  then show ?case by simp
next
  case (Cons a cs)
  obtain c now where a: "a = (c, now)" by (cases a)
  with Cons.prems have "\<not> clears_slots c" "keeps_slots cs" by simp_all
  with Cons.IH [OF mem_inv_call [OF Cons.prems(1)], of c now] a show ?case by simp
qed

text \<open>
  The private \<^verbatim>\<open>coalesce\<close> of the in-memory cache is single-flight as long as no
  \<^verbatim>\<open>del\<close> or \<^verbatim>\<open>flush\<close> empties a slot while its factory runs.
\<close>

lemma mem_single_flight:
  assumes "keeps_slots cs"
  shows "length (mem_executing (mem_run mem_empty cs) k) \<le> 1"
proof -
  let ?s = "mem_run mem_empty cs"
  have "mem_inv (mem_empty :: 'a InMemoryCacheService)" by (simp add: mem_inv_def mem_empty_def)
  from mem_inv_run [OF this assms] have inv: "mem_inv ?s" .
  then have d: "distinct (map fst (factories ?s))"
    and f: "\<And>p k' t. map_of (factories ?s) p = Some (k', t) \<Longrightarrow> map_of (inflight ?s) k' = Some p"
    unfolding mem_inv_def by blast+
  have "\<And>p v. (p, v) \<in> set (factories ?s) \<Longrightarrow> (case v of (k', ttl) \<Rightarrow> k' = k) \<Longrightarrow>
          p = the (map_of (inflight ?s) k)"
  proof -
    fix p v assume pv: "(p, v) \<in> set (factories ?s)" and "case v of (k', ttl) \<Rightarrow> k' = k"
    then obtain ttl where "v = (k, ttl)" by (cases v) auto
    with pv d have "map_of (factories ?s) p = Some (k, ttl)" by simp
    from f [OF this] show "p = the (map_of (inflight ?s) k)" by simp
  qed
  from filter_at_most_one [where P = "\<lambda>(k', ttl). k' = k", OF d this] show ?thesis
    by (simp add: mem_executing_def)
qed

text \<open>A \<^verbatim>\<open>del\<close> of the key while its factory runs lets the next caller start a second one.\<close>

lemma mem_del_in_flight:
  "mem_executing
     (mem_run (mem_empty :: nat InMemoryCacheService)
        [(GetOrSet ''exchange:sports'' 60, 0), (Del ''exchange:sports'', 1), (GetOrSet ''exchange:sports'' 60, 2)])
     ''exchange:sports'' = [0, 1]"
  by (simp add: mem_executing_def cache_defs Let_def)

subsection \<open>The concurrency bound of the worker\<close>

lemma drain_loop_bound:
  "activeCount w = int (length (fetching w)) \<Longrightarrow> activeCount w \<le> MAX_CONCURRENCY \<Longrightarrow>
   activeCount (drain_loop w) = int (length (fetching (drain_loop w))) \<and>
   activeCount (drain_loop w) \<le> MAX_CONCURRENCY"
proof (induction w rule: drain_loop.induct)
  case (1 w)
  show ?case
  proof (cases "queue w \<noteq> [] \<and> activeCount w < MAX_CONCURRENCY")
    case True
    let ?w' = "w\<lparr>queue := tl (queue w), activeCount := activeCount w + 1,
                  fetching := fetching w @ [hd (queue w)]\<rparr>"
    from True "1.prems" have "activeCount ?w' = int (length (fetching ?w'))"
      and "activeCount ?w' \<le> MAX_CONCURRENCY" by simp_all
    moreover have "drain_loop w = drain_loop ?w'"
      using True drain_loop.simps [of w] by simp
    ultimately show ?thesis using "1.IH" [OF True] by simp
  next
    case False
    then have "drain_loop w = w"
      using drain_loop.simps [of w] by (simp only: if_False)
    with "1.prems" show ?thesis by simp
  qed
qed

lemma worker_inv_drain_loop: "worker_inv w \<Longrightarrow> worker_inv (drain_loop w)"
  using drain_loop_bound [of w] by (simp add: worker_inv_def)

lemma worker_inv_drain: "worker_inv w \<Longrightarrow> worker_inv (snd (drain w))"
proof -
  assume inv: "worker_inv w"
  then have "worker_inv (w\<lparr>processing := True\<rparr>)" by (simp add: worker_inv_def)
  then have "worker_inv (drain_loop (w\<lparr>processing := True\<rparr>))" by (rule worker_inv_drain_loop)
  then have "worker_inv (drain_loop (w\<lparr>processing := True\<rparr>)\<lparr>processing := False\<rparr>)"
    by (simp add: worker_inv_def)
  moreover from inv have "worker_inv (w\<lparr>processing := False\<rparr>)" by (simp add: worker_inv_def)
  moreover note \<open>worker_inv (drain_loop (w\<lparr>processing := True\<rparr>))\<close>
  ultimately show ?thesis by (simp add: drain_def Let_def)
qed

lemma worker_inv_enqueue: "worker_inv w \<Longrightarrow> worker_inv (snd (enqueue w entries))"
proof -
  assume "worker_inv w"
  then have "worker_inv (w\<lparr>queue := queue w @ entries\<rparr>)" by (simp add: worker_inv_def)
  then show ?thesis unfolding enqueue_def by (rule worker_inv_drain)
qed

lemma worker_inv_fetch_settled: "worker_inv w \<Longrightarrow> worker_inv (snd (fetch_settled w i))"
proof (cases "i < length (fetching w)")
  case False
  assume "worker_inv w"
  with False show ?thesis by (simp add: fetch_settled_def)
next
  case True
  assume inv: "worker_inv w"
  let ?w' = "w\<lparr>fetching := take i (fetching w) @ drop (Suc i) (fetching w),
                activeCount := activeCount w - 1\<rparr>"
  from True have "length (take i (fetching w) @ drop (Suc i) (fetching w)) = length (fetching w) - 1"
    by auto
  with inv True have "worker_inv ?w'" by (auto simp: worker_inv_def)
  then have "worker_inv (snd (drain ?w'))" by (rule worker_inv_drain)
  with True show ?thesis by (simp add: fetch_settled_def)
qed

lemma worker_inv_step: "worker_inv w \<Longrightarrow> worker_inv (worker_step w ev)"
  by (cases ev) (simp_all add: worker_inv_enqueue worker_inv_fetch_settled)

lemma worker_inv_foldl: "worker_inv w \<Longrightarrow> worker_inv (foldl worker_step w evs)"
  by (induction evs arbitrary: w) (simp_all add: worker_inv_step)

lemma worker_inv_run: "worker_inv (worker_run evs)"
  unfolding worker_run_def
  by (rule worker_inv_foldl) (simp add: worker_inv_def worker_init_def MAX_CONCURRENCY_def)

text \<open>
  C3. In every state the pool reaches, however many entries are enqueued and in however
  many batches, and whenever its fetches settle, \<open>activeCount\<close> is the number of fetches
  in progress and is at most \<open>MAX_CONCURRENCY\<close>, which is 5.
\<close>

theorem worker_concurrency_bound:
  "activeCount (worker_run evs) \<le> MAX_CONCURRENCY \<and>
   int (length (fetching (worker_run evs))) = activeCount (worker_run evs) \<and>
   length (fetching (worker_run evs)) \<le> 5"
proof -
  have "worker_inv (worker_run evs)" by (rule worker_inv_run)
  then show ?thesis by (auto simp: worker_inv_def MAX_CONCURRENCY_def)
qed

theorem worker_concurrency_bound_witness:
  "worker_run worker_history =
     \<lparr>activeCount = 5, queue = [8, 9], processing = True, fetching = [2, 4, 5, 6, 7]\<rparr> \<and>
   activeCount (worker_run worker_history) \<le> MAX_CONCURRENCY \<and>
   length (fetching (worker_run worker_history)) \<le> 5"
proof -
  have "worker_run worker_history =
     \<lparr>activeCount = 5, queue = [8, 9], processing = True, fetching = [2, 4, 5, 6, 7]\<rparr>"
    by code_simp
  with worker_concurrency_bound [of worker_history] show ?thesis by simp
qed

subsection \<open>Null and empty answers of the provider\<close>

lemma key_matchList_polled:
  "key_matchList 4 = ''exchange:matches:4''"
  "key_matchList 1 = ''exchange:matches:1''"
  "key_matchList 2 = ''exchange:matches:2''"
  by code_simp+

lemma store_pollMatchList:
  "map_of (store (pollMatchList c s r now)) k =
     (case r of
        Inr (Some data) \<Rightarrow>
          if k = key_matchList s then
            Some \<lparr>entry_value = MatchList data, freshUntil = now + TTL_MATCH_LIST * 1000,
                  staleUntil = now + TTL_MATCH_LIST * 1000 * STALE_MULTIPLIER\<rparr>
          else map_of (store c) k
      | _ \<Rightarrow> map_of (store c) k)"
  by (simp add: pollMatchList_def mem_set_def map_of_alist_update Let_def split: sum.splits option.splits)

lemma pollMatchList_null: "r = Inr None \<or> r = Inl err \<Longrightarrow> pollMatchList c s r now = c"
  by (auto simp: pollMatchList_def)

lemma pollMatchLists_loop_keeps:
  "\<forall>s \<in> set ss. key_matchList s = k \<longrightarrow> (resp s = Inr None \<or> (\<exists>err. resp s = Inl err)) \<Longrightarrow>
   map_of (store (pollMatchLists_loop c ss resp now)) k = map_of (store c) k"
proof (induction ss arbitrary: c)
  case Nil
  then show ?case by simp
next
  case (Cons s ss)
  then have "map_of (store (pollMatchList c s (resp s) now)) k = map_of (store c) k"
    by (auto simp: store_pollMatchList split: sum.splits option.splits)
  with Cons show ?case by simp
qed

lemma key_matchList_polled_inj:
  assumes "s \<in> set POLL_SPORT_IDS" and "s' \<in> set POLL_SPORT_IDS" and "key_matchList s' = key_matchList s"
  shows "s' = s"
proof -
  from assms(1) have "s = 4 \<or> s = 1 \<or> s = 2" by (simp add: POLL_SPORT_IDS_def)
  moreover from assms(2) have "s' = 4 \<or> s' = 1 \<or> s' = 2" by (simp add: POLL_SPORT_IDS_def)
  ultimately show ?thesis using assms(3) by (auto simp: key_matchList_polled)
qed

lemma pollMatchLists_keeps_null:
  assumes "s \<in> set POLL_SPORT_IDS" and "resp s = Inr None \<or> resp s = Inl err"
  shows "map_of (store (pollMatchLists c resp now)) (key_matchList s) = map_of (store c) (key_matchList s)"
  unfolding pollMatchLists_def
proof (rule pollMatchLists_loop_keeps, intro ballI impI)
  fix s' assume "s' \<in> set POLL_SPORT_IDS" and "key_matchList s' = key_matchList s"
  with assms(1) have "s' = s" by (simp add: key_matchList_polled_inj)
  with assms(2) show "resp s' = Inr None \<or> (\<exists>err. resp s' = Inl err)" by blast
qed

lemma pollMatchLists_all_null:
  assumes "\<forall>s \<in> set POLL_SPORT_IDS. resp s = Inr None"
  shows "pollMatchLists c resp now = c"
  using assms by (simp add: pollMatchLists_def POLL_SPORT_IDS_def pollMatchList_def)

text \<open>
  C7. A \<^verbatim>\<open>null\<close> answer of the provider, or an empty list of markets, is never written to
  the cache. The fetcher of \<^verbatim>\<open>getCoalescedOdds\<close> and \<^verbatim>\<open>fetchOdds\<close> of the worker leave
  the cache as it was on \<^verbatim>\<open>null\<close>, on an empty list and on a failure; \<^verbatim>\<open>pollMatchLists\<close>
  leaves the entry of a sport whose answer is \<^verbatim>\<open>null\<close> or a failure as it was, with its
  \<open>freshUntil\<close> and \<open>staleUntil\<close>, and the cache as it was when every answer is \<^verbatim>\<open>null\<close>;
  and so do \<^verbatim>\<open>pollTopEvents\<close> on an empty list, \<^verbatim>\<open>pollBanners\<close> and \<^verbatim>\<open>pollSidebar\<close> on
  \<^verbatim>\<open>null\<close>.
\<close>

theorem null_answers_keep_cache:
  "(data = None \<or> data = Some [] \<longrightarrow>
      getCoalescedOdds_fetcher c g data now = (data, c) \<and>
      fetchOdds c g (Inr data) now = (False, c)) \<and>
   fetchOdds c g (Inl err) now = (False, c) \<and>
   (s \<in> set POLL_SPORT_IDS \<and> (resp s = Inr None \<or> resp s = Inl err) \<longrightarrow>
      map_of (store (pollMatchLists c resp now)) (key_matchList s) = map_of (store c) (key_matchList s)) \<and>
   ((\<forall>s \<in> set POLL_SPORT_IDS. resp s = Inr None) \<longrightarrow> pollMatchLists c resp now = c) \<and>
   pollTopEvents c (Inr []) now = c \<and> pollTopEvents c (Inl err) now = c \<and>
   pollBanners c (Inr None) now = c \<and> pollBanners c (Inl err) now = c \<and>
   pollSidebar c (Inr None) now = c \<and> pollSidebar c (Inl err) now = c"
proof -
  have 1: "data = None \<or> data = Some [] \<longrightarrow>
      getCoalescedOdds_fetcher c g data now = (data, c) \<and>
      fetchOdds c g (Inr data) now = (False, c)"
    by (auto simp: getCoalescedOdds_fetcher_def fetchOdds_def odds_present_def)
  have 2: "fetchOdds c g (Inl err) now = (False, c)" by (simp add: fetchOdds_def)
  have 3: "s \<in> set POLL_SPORT_IDS \<and> (resp s = Inr None \<or> resp s = Inl err) \<longrightarrow>
      map_of (store (pollMatchLists c resp now)) (key_matchList s) = map_of (store c) (key_matchList s)"
    using pollMatchLists_keeps_null by blast
  have 4: "(\<forall>s \<in> set POLL_SPORT_IDS. resp s = Inr None) \<longrightarrow> pollMatchLists c resp now = c"
    using pollMatchLists_all_null by blast
  have 5: "pollTopEvents c (Inr []) now = c \<and> pollTopEvents c (Inl err) now = c \<and>
   pollBanners c (Inr None) now = c \<and> pollBanners c (Inl err) now = c \<and>
   pollSidebar c (Inr None) now = c \<and> pollSidebar c (Inl err) now = c"
    by (simp add: pollTopEvents_def pollBanners_def pollSidebar_def)
  from 1 2 3 4 5 show ?thesis by blast
qed

theorem null_answers_keep_cache_witness:
  "getCoalescedOdds_fetcher odds_cache ''G1'' None 5000 = (None, odds_cache) \<and>
   fetchOdds odds_cache ''G1'' (Inr (Some [])) 5000 = (False, odds_cache) \<and>
   fetchOdds odds_cache ''G1'' (Inl ''timeout'') 5000 = (False, odds_cache) \<and>
   map_of (store (pollMatchLists odds_cache null_for_football 5000)) ''exchange:matches:1'' =
     Some \<lparr>entry_value = MatchList 9, freshUntil = 121000, staleUntil = 241000\<rparr> \<and>
   pollMatchLists odds_cache (\<lambda>s. Inr None) 5000 = odds_cache \<and>
   pollTopEvents odds_cache (Inr []) 5000 = odds_cache \<and>
   pollBanners odds_cache (Inr None) 5000 = odds_cache \<and>
   pollSidebar odds_cache (Inr None) 5000 = odds_cache"
proof -
  have h: "(1::int) \<in> set POLL_SPORT_IDS" "null_for_football 1 = Inr None"
    "\<forall>s \<in> set POLL_SPORT_IDS. (\<lambda>s. Inr None :: string + nat option) s = Inr None"
    by (simp_all add: POLL_SPORT_IDS_def null_for_football_def)
  have e: "map_of (store odds_cache) (key_matchList 1) =
     Some \<lparr>entry_value = MatchList 9, freshUntil = 121000, staleUntil = 241000\<rparr>"
    by (simp add: odds_cache_def cache_defs key_matchList_polled)
  note a = null_answers_keep_cache [of None odds_cache "''G1''" 5000 "''timeout''" 1 null_for_football]
  note b = null_answers_keep_cache [of "Some []" odds_cache "''G1''" 5000 "''timeout''" 1 "\<lambda>s. Inr None"]
  from a have w1: "getCoalescedOdds_fetcher odds_cache ''G1'' None 5000 = (None, odds_cache)" by blast
  from b have w2: "fetchOdds odds_cache ''G1'' (Inr (Some [])) 5000 = (False, odds_cache)" by blast
  from a have w3: "fetchOdds odds_cache ''G1'' (Inl ''timeout'') 5000 = (False, odds_cache)" by blast
  from a h(1,2) have "map_of (store (pollMatchLists odds_cache null_for_football 5000)) (key_matchList 1) =
      map_of (store odds_cache) (key_matchList 1)" by blast
  with e have w4: "map_of (store (pollMatchLists odds_cache null_for_football 5000)) ''exchange:matches:1'' =
     Some \<lparr>entry_value = MatchList 9, freshUntil = 121000, staleUntil = 241000\<rparr>"
    by (simp add: key_matchList_polled)
  from b h(3) have w5: "pollMatchLists odds_cache (\<lambda>s. Inr None) 5000 = odds_cache" by blast
  from a have w6: "pollTopEvents odds_cache (Inr []) 5000 = odds_cache \<and>
      pollBanners odds_cache (Inr None) 5000 = odds_cache \<and>
      pollSidebar odds_cache (Inr None) 5000 = odds_cache" by blast
  from w1 w2 w3 w4 w5 w6 show ?thesis by blast
qed

subsection \<open>Lifecycle\<close>

lemma started_start: "started (start s resp now)"
  by (simp add: start_def Let_def split_def)

lemma not_started_stop: "\<not> started (stop s)"
  by (simp add: stop_def Let_def)

lemma pf_started_start: "pf_started (pf_start s live now)"
  by (simp add: pf_start_def Let_def split_def)

lemma pf_not_started_stop: "\<not> pf_started (pf_stop s)"
  by (simp add: pf_stop_def)

text \<open>
  C9. A second \<^verbatim>\<open>start()\<close> finds \<open>started\<close> true and returns at once, leaving the state
  (timers, cache, listeners) as the first call left it; a second \<^verbatim>\<open>stop()\<close> finds
  \<open>started\<close> false and returns at once. So calling either twice is calling it once, for
  both schedulers.
\<close>

theorem lifecycle_idempotent:
  "start (start s resp now) resp' now' = start s resp now \<and>
   stop (stop s) = stop s \<and>
   (started s \<longrightarrow> start s resp now = s) \<and>
   (\<not> started s \<longrightarrow> stop s = s) \<and>
   pf_start (pf_start p live now) live' now' = pf_start p live now \<and>
   pf_stop (pf_stop p) = pf_stop p \<and>
   (pf_started p \<longrightarrow> pf_start p live now = p) \<and>
   (\<not> pf_started p \<longrightarrow> pf_stop p = p)"
proof -
  have a: "start s' resp' now' = s'" if "started s'" for s' :: "'a ExchangePollingScheduler"
    using that by (simp add: start_def)
  have b: "stop s' = s'" if "\<not> started s'" for s' :: "'a ExchangePollingScheduler"
    using that by (simp add: stop_def)
  have c: "pf_start p' live' now' = p'" if "pf_started p'" for p' :: "'b DataPrefetchScheduler"
    using that by (simp add: pf_start_def)
  have d: "pf_stop p' = p'" if "\<not> pf_started p'" for p' :: "'b DataPrefetchScheduler"
    using that by (simp add: pf_stop_def)
  from a [OF started_start] b [OF not_started_stop] c [OF pf_started_start] d [OF pf_not_started_stop]
    a b c d
  show ?thesis by (simp add: start_def stop_def pf_start_def pf_stop_def)
qed

theorem lifecycle_idempotent_witness:
  "start (start fresh_scheduler some_answers 0) some_answers 5000 = start fresh_scheduler some_answers 0 \<and>
   intervals (timers (start (start fresh_scheduler some_answers 0) some_answers 5000)) =
     [(0, OddsTier, 1000), (1, MatchListTier, 60000), (2, TopEventsTier, 3600000),
      (3, BannersTier, 3600000), (4, SidebarTier, 86400000)] \<and>
   stop (stop (start fresh_scheduler some_answers 0)) = stop (start fresh_scheduler some_answers 0) \<and>
   intervals (timers (stop (stop (start fresh_scheduler some_answers 0)))) = [] \<and>
   started (start fresh_scheduler some_answers 0) \<and>
   start (start fresh_scheduler some_answers 0) some_answers 5000 = start fresh_scheduler some_answers 0 \<and>
   \<not> started fresh_scheduler \<and> stop fresh_scheduler = fresh_scheduler \<and>
   pf_start (pf_start fresh_prefetch_scheduler some_matches 0) some_matches 5000 =
     pf_start fresh_prefetch_scheduler some_matches 0 \<and>
   intervals (pf_timers (pf_start (pf_start fresh_prefetch_scheduler some_matches 0) some_matches 5000)) =
     [(0, OddsTier, 1000)] \<and>
   pf_stop (pf_stop (pf_start fresh_prefetch_scheduler some_matches 0)) =
     pf_stop (pf_start fresh_prefetch_scheduler some_matches 0) \<and>
   \<not> pf_started fresh_prefetch_scheduler \<and> pf_stop fresh_prefetch_scheduler = fresh_prefetch_scheduler"
proof -
  have t: "intervals (timers (start fresh_scheduler some_answers 0)) =
     [(0, OddsTier, 1000), (1, MatchListTier, 60000), (2, TopEventsTier, 3600000),
      (3, BannersTier, 3600000), (4, SidebarTier, 86400000)]"
    by code_simp
  have u: "intervals (timers (stop (start fresh_scheduler some_answers 0))) = []"
    by code_simp
  have v: "intervals (pf_timers (pf_start fresh_prefetch_scheduler some_matches 0)) = [(0, OddsTier, 1000)]"
    by code_simp
  have n: "\<not> started fresh_scheduler" "\<not> pf_started fresh_prefetch_scheduler"
    "started (start fresh_scheduler some_answers 0)"
    by (simp_all add: fresh_scheduler_def new_scheduler_def fresh_prefetch_scheduler_def
        new_prefetch_scheduler_def started_start)
  note a = lifecycle_idempotent [of fresh_scheduler some_answers 0 some_answers 5000
      fresh_prefetch_scheduler some_matches some_matches]
  note b = lifecycle_idempotent [of "start fresh_scheduler some_answers 0" some_answers 0 some_answers 5000
      "pf_start fresh_prefetch_scheduler some_matches 0" some_matches some_matches]
  from a have 1: "start (start fresh_scheduler some_answers 0) some_answers 5000 =
      start fresh_scheduler some_answers 0" by blast
  from b have 2: "stop (stop (start fresh_scheduler some_answers 0)) = stop (start fresh_scheduler some_answers 0)"
    by blast
  from a n have 3: "stop fresh_scheduler = fresh_scheduler" by blast
  from a have 4: "pf_start (pf_start fresh_prefetch_scheduler some_matches 0) some_matches 5000 =
     pf_start fresh_prefetch_scheduler some_matches 0" by blast
  from b have 5: "pf_stop (pf_stop (pf_start fresh_prefetch_scheduler some_matches 0)) =
     pf_stop (pf_start fresh_prefetch_scheduler some_matches 0)" by blast
  from a n have 6: "pf_stop fresh_prefetch_scheduler = fresh_prefetch_scheduler" by blast
  from 1 2 3 4 5 6 t u v n show ?thesis by simp
qed

subsection \<open>The odds tick\<close>

lemma tick_skips_while_active:
  "oddsPollingActive s \<Longrightarrow> poll_begin s = s \<and> pollHotGmidOdds s now = s"
  by (simp add: poll_begin_def pollHotGmidOdds_def)

lemma tick_on_empty_hot_set:
  "worker (poll_resume s (Inr [])) = worker s \<and>
   oddsPollingActive (poll_resume s (Inr [])) = oddsPollingActive s"
  by (simp add: poll_resume_def Let_def)

text \<open>
  C5. The guard of \<^verbatim>\<open>pollHotGmidOdds\<close> is read before \<^verbatim>\<open>await this.getHotGmids()\<close> and
  \<open>oddsPollingActive\<close> is set after it. When a second timer tick begins while the first is
  still waiting for the hot list, both pass the guard and both dispatch: the second one
  enqueues its entries while the flag is set and the fetches of the first are in progress.
\<close>

theorem ticks_overlap_across_await:
  "oddsPollingActive (sched_run fresh_scheduler [TickBegin, TickBegin, TickResume (Inr two_hot)]) \<and>
   fetching (worker (sched_run fresh_scheduler [TickBegin, TickBegin, TickResume (Inr two_hot)])) = two_hot \<and>
   oddsPollingActive (sched_run fresh_scheduler
      [TickBegin, TickBegin, TickResume (Inr two_hot), TickResume (Inr two_hot)]) \<and>
   fetching (worker (sched_run fresh_scheduler
      [TickBegin, TickBegin, TickResume (Inr two_hot), TickResume (Inr two_hot)])) = two_hot @ two_hot"
  by code_simp

lemma drain_loop_props:
  "processing (drain_loop w) = processing w \<and>
   (queue (drain_loop w) = [] \<or> \<not> activeCount (drain_loop w) < MAX_CONCURRENCY)"
proof (induction w rule: drain_loop.induct)
  case (1 w)
  show ?case
  proof (cases "queue w \<noteq> [] \<and> activeCount w < MAX_CONCURRENCY")
    case True
    let ?w' = "w\<lparr>queue := tl (queue w), activeCount := activeCount w + 1,
                  fetching := fetching w @ [hd (queue w)]\<rparr>"
    have "drain_loop w = drain_loop ?w'"
      using True drain_loop.simps [of w] by simp
    with "1.IH" [OF True] show ?thesis by simp
  next
    case False
    then have "drain_loop w = w"
      using drain_loop.simps [of w] by (simp only: if_False)
    with False show ?thesis by auto
  qed
qed

lemma drain_result:
  assumes "worker_inv w"
  shows "worker_state_ok (snd (drain w)) \<and> fst (drain w) = (\<not> processing (snd (drain w)))"
proof (cases "processing w \<and> queue w = [] \<and> activeCount w = 0")
  case True
  with assms show ?thesis by (simp add: drain_def worker_state_ok_def worker_inv_def)
next
  case False
  let ?w1 = "drain_loop (w\<lparr>processing := True\<rparr>)"
  from assms have "worker_inv (w\<lparr>processing := True\<rparr>)" by (simp add: worker_inv_def)
  then have inv1: "worker_inv ?w1" by (rule worker_inv_drain_loop)
  from drain_loop_props [of "w\<lparr>processing := True\<rparr>"]
  have p1: "processing ?w1" and q1: "queue ?w1 = [] \<or> \<not> activeCount ?w1 < MAX_CONCURRENCY"
    by simp_all
  have dr: "drain w =
      (if queue ?w1 = [] \<and> activeCount ?w1 = 0 then (True, ?w1\<lparr>processing := False\<rparr>) else (False, ?w1))"
    by (simp only: drain_def Let_def if_not_P [OF False])
  show ?thesis
  proof (cases "queue ?w1 = [] \<and> activeCount ?w1 = 0")
    case True
    with inv1 show ?thesis
      by (simp add: dr worker_state_ok_def worker_inv_def)
  next
    case nd: False
    from inv1 have "0 \<le> activeCount ?w1" by (simp add: worker_inv_def)
    with nd q1 have "0 < activeCount ?w1" by (auto simp: MAX_CONCURRENCY_def)
    with inv1 p1 show ?thesis
      by (simp only: dr if_not_P [OF nd] snd_conv fst_conv worker_state_ok_def) simp
  qed
qed

lemma sched_ok_emit:
  assumes "worker_inv (worker s)" and "listeners s" and "awaiting_hot s = 0" and "oddsPollingActive s"
  shows "sched_ok (emit_fetch_odds s entries)"
proof -
  let ?w = "(worker s)\<lparr>queue := queue (worker s) @ entries\<rparr>"
  from assms(1) have "worker_inv ?w" by (simp add: worker_inv_def)
  from drain_result [OF this] assms(2,3,4) show ?thesis
    by (auto simp: emit_fetch_odds_def enqueue_def sched_ok_def on_tick_complete_def split: prod.splits)
qed

lemma sched_ok_tick: "sched_ok s \<Longrightarrow> sched_ok (pollHotGmidOdds s now)"
proof (cases "oddsPollingActive s")
  case True
  assume "sched_ok s"
  with True show ?thesis by (simp add: pollHotGmidOdds_def)
next
  case False
  assume ok: "sched_ok s"
  obtain hot c where g: "getHotGmids (cache s) now = (hot, c)" by (cases "getHotGmids (cache s) now")
  let ?s1 = "s\<lparr>cache := c, awaiting_hot := 0\<rparr>"
  let ?s2 = "s\<lparr>cache := c, awaiting_hot := 0, oddsPollingActive := True\<rparr>"
  from ok have inv: "worker_inv (worker ?s2)" "listeners ?s2" "awaiting_hot ?s2 = 0" "oddsPollingActive ?s2"
    by (simp_all add: sched_ok_def worker_state_ok_def)
  have r: "pollHotGmidOdds s now = (if length hot = 0 then ?s1 else emit_fetch_odds ?s2 hot)"
    using False g ok by (simp add: pollHotGmidOdds_def poll_begin_def poll_resume_def Let_def sched_ok_def)
  show ?thesis
  proof (cases "length hot = 0")
    case True
    with r ok show ?thesis by (simp add: sched_ok_def)
  next
    case nz: False
    with r sched_ok_emit [OF inv, of hot] show ?thesis by simp
  qed
qed

lemma sched_ok_fetch_settles: "sched_ok s \<Longrightarrow> sched_ok (fetch_settles s i)"
proof (cases "i < length (fetching (worker s))")
  case False
  assume "sched_ok s"
  with False show ?thesis by (simp add: fetch_settles_def fetch_settled_def sched_ok_def)
next
  case True
  assume ok: "sched_ok s"
  let ?w = "(worker s)\<lparr>fetching := take i (fetching (worker s)) @ drop (Suc i) (fetching (worker s)),
                         activeCount := activeCount (worker s) - 1\<rparr>"
  from ok have winv: "worker_inv (worker s)" by (simp add: sched_ok_def worker_state_ok_def)
  from True have "length (take i (fetching (worker s)) @ drop (Suc i) (fetching (worker s))) =
      length (fetching (worker s)) - 1" by auto
  with winv True have "worker_inv ?w" by (auto simp: worker_inv_def)
  note d = drain_result [OF this]
  from True have "fetching (worker s) \<noteq> []" by auto
  with winv have "0 < activeCount (worker s)" by (simp add: worker_inv_def)
  with ok have "oddsPollingActive s" by (auto simp: sched_ok_def worker_state_ok_def split: if_splits)
  with d ok True show ?thesis
    by (auto simp: fetch_settles_def fetch_settled_def sched_ok_def on_tick_complete_def split: prod.splits)
qed

lemma sched_ok_step:
  assumes "sched_ok s" and "whole_ticks [ev]"
  shows "sched_ok (sched_step s ev)"
proof (cases ev)
  case (MarkHot g sp now)
  with assms(1) show ?thesis by (simp add: sched_ok_def)
qed (use assms in \<open>simp_all add: sched_ok_tick sched_ok_fetch_settles\<close>)

lemma whole_ticks_Cons: "whole_ticks (ev # evs) = (whole_ticks [ev] \<and> whole_ticks evs)"
  by (cases ev) simp_all

lemma sched_ok_foldl: "sched_ok s \<Longrightarrow> whole_ticks evs \<Longrightarrow> sched_ok (foldl sched_step s evs)"
proof (induction evs arbitrary: s)
  case Nil
  then show ?case by simp
next
  case (Cons ev evs)
  from Cons.prems(2) have "whole_ticks [ev]" "whole_ticks evs"
    using whole_ticks_Cons [of ev evs] by simp_all
  with Cons.IH [OF sched_ok_step [OF Cons.prems(1)]] show ?case by simp
qed

text \<open>
  When every tick runs as a whole, as with the in-memory cache, ticks do not overlap:
  whenever the flag is clear, and so whenever a tick gets past the guard and dispatches,
  the worker has nothing queued and no fetch in progress.
\<close>

lemma whole_ticks_do_not_overlap:
  assumes "whole_ticks evs" and "\<not> oddsPollingActive (sched_run (new_scheduler c cfg) evs)"
  shows "queue (worker (sched_run (new_scheduler c cfg) evs)) = [] \<and>
         fetching (worker (sched_run (new_scheduler c cfg) evs)) = []"
proof -
  have "sched_ok (new_scheduler c cfg)"
    by (simp add: sched_ok_def worker_state_ok_def worker_inv_def new_scheduler_def worker_init_def
        MAX_CONCURRENCY_def)
  from sched_ok_foldl [OF this assms(1)] assms(2) show ?thesis
    by (auto simp: sched_run_def sched_ok_def worker_state_ok_def worker_inv_def split: if_splits)
qed

subsection \<open>Get-or-set on the Redis cache\<close>

lemma redis_get_callers: "redis_get (redis_callers s k ttl nows) k' now = redis_get s k' now"
  by (induction nows arbitrary: s)
     (auto simp: redis_getOrSet_def redis_get_def split: option.splits)

lemma redis_callers_miss:
  "map_of (server s) (prefix s @ k) = None \<Longrightarrow>
   length (redis_executing (redis_callers s k ttl nows) k) = length (redis_executing s k) + length nows"
proof (induction nows arbitrary: s)
  case Nil
  then show ?case by simp
next
  case (Cons now nows)
  let ?s1 = "snd (redis_getOrSet s k ttl now)"
  from Cons.prems have s1: "?s1 = s\<lparr>calls := calls s @ [(next_call s, k, ttl)], next_call := Suc (next_call s)\<rparr>"
    by (simp add: redis_getOrSet_def redis_get_def)
  then have "map_of (server ?s1) (prefix ?s1 @ k) = None" using Cons.prems by simp
  from Cons.IH [OF this] s1 show ?case by (simp add: redis_executing_def)
qed

lemma redis_get_set:
  "0 < ttl \<Longrightarrow> redis_get (redis_set s k v ttl t0) k t = (if t < t0 + ttl * 1000 then v else None)"
  by (simp add: redis_get_def redis_set_def map_of_alist_update)

lemma redis_get_settled:
  assumes "map_of (calls s) n = Some (k, ttl)" and "0 < ttl"
  shows "redis_get (redis_factory_settled s n (Resolved v) t0) k t =
           (if t < t0 + ttl * 1000 then v else None)"
proof -
  have "redis_factory_settled s n (Resolved v) t0 = redis_set (s\<lparr>calls := AList.delete n (calls s)\<rparr>) k v ttl t0"
    using assms(1) by (simp add: redis_factory_settled_def)
  then show ?thesis by (simp only: redis_get_set [OF assms(2)])
qed

text \<open>
  With the Redis cache \<^verbatim>\<open>getOrSet\<close> is a \<^verbatim>\<open>get\<close>, then the factory, then a \<^verbatim>\<open>set\<close>. A
  cached value that is not \<^verbatim>\<open>null\<close> is returned and no factory runs. Every caller that
  misses starts a factory of its own, whatever is already running: callers that miss for
  one key add as many factory executions as there are callers. What a factory returns is
  stored with the plain TTL and read back until \<open>ttl\<close> seconds after it was stored; a
  stored \<^verbatim>\<open>null\<close> is read back as a miss, so the next caller runs the factory again.
\<close>

lemma redis_getOrSet_steps:
  "(redis_get s k now = Some cached \<longrightarrow> redis_getOrSet s k ttl now = (Served cached, s)) \<and>
   (redis_get s k now = None \<longrightarrow>
      fst (redis_getOrSet s k ttl now) = Awaits (next_call s) \<and>
      calls (snd (redis_getOrSet s k ttl now)) = calls s @ [(next_call s, k, ttl)]) \<and>
   (map_of (server s) (prefix s @ k) = None \<longrightarrow>
      length (redis_executing (redis_callers s k ttl nows) k) = length (redis_executing s k) + length nows) \<and>
   (0 < ttl \<longrightarrow>
      redis_get (redis_set s k v ttl t0) k t = (if t < t0 + ttl * 1000 then v else None)) \<and>
   (map_of (calls s) n = Some (k, ttl) \<and> 0 < ttl \<longrightarrow>
      redis_get (redis_factory_settled s n (Resolved v) t0) k t =
        (if t < t0 + ttl * 1000 then v else None))"
proof -
  have 1: "redis_get s k now = Some cached \<longrightarrow> redis_getOrSet s k ttl now = (Served cached, s)"
    by (simp add: redis_getOrSet_def)
  have 2: "redis_get s k now = None \<longrightarrow>
      fst (redis_getOrSet s k ttl now) = Awaits (next_call s) \<and>
      calls (snd (redis_getOrSet s k ttl now)) = calls s @ [(next_call s, k, ttl)]"
    by (simp add: redis_getOrSet_def)
  from 1 2 redis_callers_miss [of s k ttl nows] redis_get_set [of ttl s k v t0 t]
    redis_get_settled [of s n k ttl v t0 t]
  show ?thesis by blast
qed

lemma redis_null_is_miss:
  "0 < ttl \<Longrightarrow>
   fst (redis_getOrSet (redis_set s k None ttl t0) k ttl' t) = Awaits (next_call s)"
  by (simp add: redis_getOrSet_def redis_get_set) (simp add: redis_set_def)

text \<open>
  C8. The claim does not hold of the code with the Redis cache. The key
  \<^verbatim>\<open>exchange:sports\<close> is absent, and two callers of \<^verbatim>\<open>getOrSet\<close> arrive for it, the second
  before the factory of the first has settled. Both miss, each waits for a factory of its
  own, and two factory executions are in progress for the key. When the first settles its
  value is stored and the second is still running; when the second settles its value
  replaces the first.
\<close>

theorem redis_getOrSet_two_factories:
  "fst (redis_getOrSet (redis_empty :: nat RedisCacheService) ''exchange:sports'' 60 0) = Awaits 0 \<and>
   fst (redis_getOrSet (snd (redis_getOrSet (redis_empty :: nat RedisCacheService) ''exchange:sports'' 60 0))
      ''exchange:sports'' 60 1) = Awaits 1 \<and>
   redis_executing
     (snd (redis_getOrSet (snd (redis_getOrSet (redis_empty :: nat RedisCacheService) ''exchange:sports'' 60 0))
        ''exchange:sports'' 60 1)) ''exchange:sports'' = [0, 1] \<and>
   redis_executing
     (redis_factory_settled
        (snd (redis_getOrSet (snd (redis_getOrSet (redis_empty :: nat RedisCacheService) ''exchange:sports'' 60 0))
           ''exchange:sports'' 60 1)) 0 (Resolved (Some 7)) 500) ''exchange:sports'' = [1] \<and>
   redis_get
     (redis_factory_settled
        (redis_factory_settled
           (snd (redis_getOrSet (snd (redis_getOrSet (redis_empty :: nat RedisCacheService) ''exchange:sports'' 60 0))
              ''exchange:sports'' 60 1)) 0 (Resolved (Some 7)) 500)
        1 (Resolved (Some 8)) 600) ''exchange:sports'' 700 = Some 8"
  by (simp add: redis_executing_def redis_getOrSet_def redis_get_def redis_set_def
      redis_factory_settled_def redis_empty_def)

end
